theory Spec2Isabelle
  imports Main "HOL-Library.Word" "HOL-Library.List_Lexorder" "HOL-Library.Multiset"
begin

section \<open>Row numbers (pkg/parquetquery/iters.go)\<close>

text \<open>
  \<^verbatim>\<open>type RowNumber [8]int32\<close>: a fixed array of eight signed 32-bit integers. The
  model is the constructor \<open>RN\<close> with eight \<open>32 word\<close> fields, read as two's complement with
  \<open>sint\<close>. \<open>rn_list\<close> and \<open>rn_of_list\<close> give the array as a list, so that the
  source's index loops can be written as loops. An index outside \<open>0..7\<close> panics in Go:
  \<open>rn_at\<close> returns \<open>None\<close> there, and every function that can reach such an index
  returns \<open>None\<close> for the panic.
\<close>

type_synonym int32 = "32 word"

datatype RowNumber = RN int32 int32 int32 int32 int32 int32 int32 int32

fun rn_list :: "RowNumber \<Rightarrow> int32 list" where
  "rn_list (RN a b c d e f g h) = [a, b, c, d, e, f, g, h]"

fun rn_of_list :: "int32 list \<Rightarrow> RowNumber" where
  "rn_of_list [a, b, c, d, e, f, g, h] = RN a b c d e f g h"
| "rn_of_list xs = RN (-1) (-1) (-1) (-1) (-1) (-1) (-1) (-1)"

definition rn_at :: "RowNumber \<Rightarrow> int \<Rightarrow> int32 option" where
  "rn_at t i = (if 0 \<le> i \<and> i < 8 then Some (rn_list t ! nat i) else None)"

definition MaxDefinitionLevel :: int where
  "MaxDefinitionLevel = 7"

definition MaxInt32 :: int32 where
  "MaxInt32 = 2147483647"

definition EmptyRowNumber :: RowNumber where
  "EmptyRowNumber = RN (-1) (-1) (-1) (-1) (-1) (-1) (-1) (-1)"

text \<open>\<^verbatim>\<open>RowNumber{math.MaxInt32}\<close>: the positions not written are Go's zero value.\<close>

definition MaxRowNumber :: RowNumber where
  "MaxRowNumber = RN MaxInt32 0 0 0 0 0 0 0"

text \<open>
  \<^verbatim>\<open>for i := 0; i <= upToDefinitionLevel; i++\<close>, with the three-way test on
  \<^verbatim>\<open>a[i]\<close> and \<^verbatim>\<open>b[i]\<close>. The loop index is the first argument.
\<close>

function CompareLoop :: "int \<Rightarrow> int \<Rightarrow> RowNumber \<Rightarrow> RowNumber \<Rightarrow> int option" where
  "CompareLoop i d a b =
     (if i \<le> d then
        (case rn_at a i of
           None \<Rightarrow> None
         | Some x \<Rightarrow>
            (case rn_at b i of
               None \<Rightarrow> None
             | Some y \<Rightarrow>
                 if sint x < sint y then Some (-1)
                 else if sint x > sint y then Some 1
                 else CompareLoop (i + 1) d a b))
      else Some 0)"
  by pat_completeness auto
termination
  by (relation "measure (\<lambda>(i, d, a, b). nat (d + 1 - i))") auto

declare CompareLoop.simps [simp del]

definition CompareRowNumbers :: "int \<Rightarrow> RowNumber \<Rightarrow> RowNumber \<Rightarrow> int option" where
  "CompareRowNumbers upToDefinitionLevel a b = CompareLoop 0 upToDefinitionLevel a b"

function EqualLoop :: "int \<Rightarrow> int \<Rightarrow> RowNumber \<Rightarrow> RowNumber \<Rightarrow> bool option" where
  "EqualLoop i d a b =
     (if i \<le> d then
        (case rn_at a i of
           None \<Rightarrow> None
         | Some x \<Rightarrow>
            (case rn_at b i of
               None \<Rightarrow> None
             | Some y \<Rightarrow> if x \<noteq> y then Some False else EqualLoop (i + 1) d a b))
      else Some True)"
  by pat_completeness auto
termination
  by (relation "measure (\<lambda>(i, d, a, b). nat (d + 1 - i))") auto

declare EqualLoop.simps [simp del]

definition EqualRowNumber :: "int \<Rightarrow> RowNumber \<Rightarrow> RowNumber \<Rightarrow> bool option" where
  "EqualRowNumber upToDefinitionLevel a b = EqualLoop 0 upToDefinitionLevel a b"

text \<open>\<^verbatim>\<open>TruncateRowNumber\<close>: a switch over the levels 0 to 7, a panic otherwise.\<close>

fun TruncateRowNumber :: "int \<Rightarrow> RowNumber \<Rightarrow> RowNumber option" where
  "TruncateRowNumber definitionLevelToKeep (RN a b c d e f g h) =
     (if definitionLevelToKeep = 0 then Some (RN a (-1) (-1) (-1) (-1) (-1) (-1) (-1))
      else if definitionLevelToKeep = 1 then Some (RN a b (-1) (-1) (-1) (-1) (-1) (-1))
      else if definitionLevelToKeep = 2 then Some (RN a b c (-1) (-1) (-1) (-1) (-1))
      else if definitionLevelToKeep = 3 then Some (RN a b c d (-1) (-1) (-1) (-1))
      else if definitionLevelToKeep = 4 then Some (RN a b c d e (-1) (-1) (-1))
      else if definitionLevelToKeep = 5 then Some (RN a b c d e f (-1) (-1))
      else if definitionLevelToKeep = 6 then Some (RN a b c d e f g (-1))
      else if definitionLevelToKeep = 7 then Some (RN a b c d e f g h)
      else None)"

fun Valid :: "RowNumber \<Rightarrow> bool" where
  "Valid (RN a b c d e f g h) = (0 \<le> sint a)"

text \<open>
  \<^verbatim>\<open>Next(repetitionLevel, definitionLevel, maxDefinitionLevel)\<close>: the increment at
  \<^verbatim>\<open>t[repetitionLevel]\<close> panics outside \<open>0..7\<close>; the first loop writes
  \<^verbatim>\<open>t[i] = 0\<close> for \<open>i\<close> from \<open>repetitionLevel + 1\<close> to \<open>definitionLevel\<close> and
  panics when it reaches index 8; the second loop is guarded by \<^verbatim>\<open>i < len(t)\<close> and
  panics only at a negative index.
\<close>

function NextZero :: "int \<Rightarrow> int \<Rightarrow> int32 list \<Rightarrow> int32 list option" where
  "NextZero i definitionLevel t =
     (if i \<le> definitionLevel then
        (if 0 \<le> i \<and> i < 8 then NextZero (i + 1) definitionLevel (t[nat i := 0]) else None)
      else Some t)"
  by pat_completeness auto
termination
  by (relation "measure (\<lambda>(i, d, t). nat (d + 1 - i))") auto

declare NextZero.simps [simp del]

function NextUndef :: "int \<Rightarrow> int \<Rightarrow> int32 list \<Rightarrow> int32 list option" where
  "NextUndef i maxDefinitionLevel t =
     (if i < 8 \<and> i \<le> maxDefinitionLevel then
        (if 0 \<le> i then NextUndef (i + 1) maxDefinitionLevel (t[nat i := -1]) else None)
      else Some t)"
  by pat_completeness auto
termination
  by (relation "measure (\<lambda>(i, m, t). nat (8 - i))") auto

declare NextUndef.simps [simp del]

definition Next :: "int \<Rightarrow> int \<Rightarrow> int \<Rightarrow> RowNumber \<Rightarrow> RowNumber option" where
  "Next repetitionLevel definitionLevel maxDefinitionLevel t =
     (if 0 \<le> repetitionLevel \<and> repetitionLevel < 8 then
        (let r = nat repetitionLevel;
             t1 = (rn_list t)[r := rn_list t ! r + 1]
         in case NextZero (repetitionLevel + 1) definitionLevel t1 of
              None \<Rightarrow> None
            | Some t2 \<Rightarrow>
               (case NextUndef (definitionLevel + 1) maxDefinitionLevel t2 of
                  None \<Rightarrow> None
                | Some t3 \<Rightarrow> Some (rn_of_list t3)))
      else None)"

text \<open>
  \<^verbatim>\<open>Skip(numRows int64)\<close>: \<^verbatim>\<open>t[0] += int32(numRows)\<close>, the conversion keeping the
  low 32 bits, and every other position set to \<open>-1\<close>.
\<close>

type_synonym int64 = "64 word"

fun Skip :: "int64 \<Rightarrow> RowNumber \<Rightarrow> RowNumber" where
  "Skip numRows (RN a b c d e f g h) =
     RN (a + ucast numRows) (-1) (-1) (-1) (-1) (-1) (-1) (-1)"

text \<open>
  \<^verbatim>\<open>Preceding\<close>: the loop runs \<open>i\<close> from 7 down to 0. The first argument of
  \<open>PrecedingLoop\<close> is \<open>i + 1\<close>, the number of positions still to visit.
\<close>

fun PrecedingLoop :: "nat \<Rightarrow> int32 list \<Rightarrow> int32 list" where
  "PrecedingLoop 0 t = t"
| "PrecedingLoop (Suc i) t =
     (if t ! i = -1 then PrecedingLoop i t
      else if t ! i = 0 then PrecedingLoop i (t[i := MaxInt32])
      else t[i := t ! i - 1])"

definition Preceding :: "RowNumber \<Rightarrow> RowNumber" where
  "Preceding t = rn_of_list (PrecedingLoop 8 (rn_list t))"


subsection \<open>Order on row numbers, for the proofs\<close>

text \<open>
  \<open>lexcmp\<close> is the three-way lexicographic comparison of two arrays by signed value;
  \<open>cmp_upto d\<close> is what \<open>CompareRowNumbers d\<close> computes when \<open>d \<le> 7\<close> (lemma
  \<open>CompareRowNumbers_cmp_upto\<close>). \<open>prec\<close> is the loop of \<open>Preceding\<close> over a whole
  array.
\<close>

fun lexcmp :: "int32 list \<Rightarrow> int32 list \<Rightarrow> int" where
  "lexcmp (x # xs) (y # ys) =
     (if sint x < sint y then -1 else if sint y < sint x then 1 else lexcmp xs ys)"
| "lexcmp xs ys = 0"

definition cmp_upto :: "int \<Rightarrow> RowNumber \<Rightarrow> RowNumber \<Rightarrow> int" where
  "cmp_upto d a b = lexcmp (take (nat (d + 1)) (rn_list a)) (take (nat (d + 1)) (rn_list b))"

definition prec :: "int32 list \<Rightarrow> int32 list" where
  "prec xs = PrecedingLoop (length xs) xs"

text \<open>
  Two positions have the same shape when both are undefined (\<open>-1\<close>) or both are
  defined (\<open>\<ge> 0\<close> for the second); two row numbers are defined at the same levels when
  all their positions have the same shape.
\<close>

definition same_shape :: "int32 \<Rightarrow> int32 \<Rightarrow> bool" where
  "same_shape x z \<longleftrightarrow> (x = -1 \<longleftrightarrow> z = -1) \<and> -1 \<le> sint z"

definition same_levels :: "RowNumber \<Rightarrow> RowNumber \<Rightarrow> bool" where
  "same_levels r r' = list_all2 same_shape (rn_list r) (rn_list r')"

definition positions_from_minus_one :: "RowNumber \<Rightarrow> bool" where
  "positions_from_minus_one r = list_all (\<lambda>x. -1 \<le> sint x) (rn_list r)"

definition some_position_positive :: "RowNumber \<Rightarrow> bool" where
  "some_position_positive r = list_ex (\<lambda>x. 1 \<le> sint x) (rn_list r)"

section \<open>Values and results\<close>

text \<open>
  \<^verbatim>\<open>pq.Value\<close> of the parquet library: of a value the engine reads its repetition
  level, its definition level and, in \<open>KeepGroup\<close>, its bytes (\<^verbatim>\<open>ByteArray()\<close>).
  Go strings and byte slices are \<open>string\<close>, a list of bytes.
\<close>

record Value =
  RepetitionLevel :: int
  DefinitionLevel :: int
  ByteArray :: string

text \<open>The \<^verbatim>\<open>interface{}\<close> of \<open>OtherEntries\<close> is an opaque handle.\<close>

datatype Opaque = Opaque nat

record IteratorResult =
  RowNumber :: RowNumber
  Entries :: "(string \<times> Value) list"
  OtherEntries :: "(string \<times> Opaque) list"

definition Append :: "IteratorResult \<Rightarrow> IteratorResult \<Rightarrow> IteratorResult" where
  "Append r rr =
     r\<lparr>Entries := (if length (Entries rr) > 0 then Entries r @ Entries rr else Entries r),
       OtherEntries :=
         (if length (OtherEntries rr) > 0 then OtherEntries r @ OtherEntries rr
          else OtherEntries r)\<rparr>"

text \<open>
  \<^verbatim>\<open>Columns(buffer, names...)\<close>: every entry goes to the column of the first name equal
  to its key. \<open>ColumnsAppend\<close> is the inner loop over \<open>names\<close> with its \<^verbatim>\<open>break\<close>;
  the buffer starts with one empty column per name.
\<close>

fun ColumnsAppend :: "string list \<Rightarrow> string \<times> Value \<Rightarrow> Value list list \<Rightarrow> Value list list" where
  "ColumnsAppend (n # names) e (col # buffer) =
     (if fst e = n then (col @ [snd e]) # buffer else col # ColumnsAppend names e buffer)"
| "ColumnsAppend names e buffer = buffer"

definition Columns :: "IteratorResult \<Rightarrow> string list \<Rightarrow> Value list list" where
  "Columns r names = foldl (\<lambda>buffer e. ColumnsAppend names e buffer) (replicate (length names) []) (Entries r)"

section \<open>KeyValueGroupPredicate\<close>

record KeyValueGroupPredicate =
  keys :: "string list"
  vals :: "string list"

definition NewKeyValueGroupPredicate :: "string list \<Rightarrow> string list \<Rightarrow> KeyValueGroupPredicate" where
  "NewKeyValueGroupPredicate ks values = \<lparr>keys = ks, vals = values\<rparr>"

text \<open>
  The inner loop of \<open>KeepGroup\<close>: \<^verbatim>\<open>for j := 0; j < len(keys) && j < len(vals); j++\<close>
  with \<^verbatim>\<open>bytes.Equal\<close> on both columns.
\<close>

fun KeepGroupFound :: "string \<Rightarrow> string \<Rightarrow> Value list \<Rightarrow> Value list \<Rightarrow> bool" where
  "KeepGroupFound k v (key # ks) (val # vs) =
     (if k = ByteArray key \<and> v = ByteArray val then True else KeepGroupFound k v ks vs)"
| "KeepGroupFound k v ks vs = False"

text \<open>
  The outer loop over \<^verbatim>\<open>a.keys\<close>. \<^verbatim>\<open>a.vals[i]\<close> is an index out of range, a panic
  (\<open>None\<close>), when the predicate has fewer values than keys.
\<close>

fun KeepGroupLoop :: "string list \<Rightarrow> string list \<Rightarrow> Value list \<Rightarrow> Value list \<Rightarrow> bool option" where
  "KeepGroupLoop [] avals ks vs = Some True"
| "KeepGroupLoop (k # akeys) [] ks vs = None"
| "KeepGroupLoop (k # akeys) (v # avals) ks vs =
     (if KeepGroupFound k v ks vs then KeepGroupLoop akeys avals ks vs else Some False)"

definition KeepGroup :: "KeyValueGroupPredicate \<Rightarrow> IteratorResult \<Rightarrow> bool option" where
  "KeepGroup a grp =
     (let buffer = Columns grp [''keys'', ''values''];
          ks = buffer ! 0;
          vs = buffer ! 1
      in if length ks < length (keys a) \<or> length ks \<noteq> length vs then Some False
         else KeepGroupLoop (keys a) (vals a) ks vs)"


section \<open>Errors\<close>

text \<open>
  A Go error is a value; a panic (an index out of range, the explicit \<^verbatim>\<open>panic\<close> of
  \<open>TruncateRowNumber\<close>) ends the call and is the outcome \<open>Panic\<close>. \<open>EOF\<close> is
  \<^verbatim>\<open>io.EOF\<close>; \<open>Wrapped\<close> is \<^verbatim>\<open>fmt.Errorf("...: %w", err)\<close>.
\<close>

datatype error = Panic | EOF | Failure string | Wrapped string error

section \<open>The column data read by a SyncIterator\<close>

text \<open>
  The parquet library's interfaces, as far as the iterator calls them. A page has its
  number of rows, the values its reader returns in order, and the slice
  \<^verbatim>\<open>RepetitionLevels()\<close> returns: the library gives the repetition levels of the
  values for a repeated column and an empty slice for a column that is not repeated, so
  the slice is a datum of the page. The reader ends with \<^verbatim>\<open>io.EOF\<close>, or with the error
  \<open>PageReadError\<close>. A column chunk is the list of pages \<^verbatim>\<open>NextPage\<close> returns, ending
  with \<^verbatim>\<open>io.EOF\<close> or with the error \<open>ChunkError\<close>. A row group has its number of
  rows and one chunk per column.
\<close>

record Page =
  PageNumRows :: int64
  PageValues :: "Value list"
  PageRepetitionLevels :: "int list"
  PageReadError :: "error option"

record ColumnChunk =
  Pages :: "Page list"
  ChunkError :: "error option"

record RowGroup =
  NumRows :: int64
  ColumnChunks :: "ColumnChunk list"

text \<open>The interface \<^verbatim>\<open>Predicate\<close>: chunk, page and value filters.\<close>

record Predicate =
  KeepColumnChunk :: "ColumnChunk \<Rightarrow> bool"
  KeepPage :: "Page \<Rightarrow> bool"
  KeepValue :: "Value \<Rightarrow> bool"

record SyncIterator =
  column :: int
  columnName :: string
  selectAs :: string
  rgs :: "RowGroup list"
  rgsMin :: "RowNumber list"
  rgsMax :: "RowNumber list"
  readSize :: int
  filter' :: "Predicate option"
  curr :: RowNumber
  currRowGroup :: "RowGroup option"
  currRowGroupMin :: RowNumber
  currRowGroupMax :: RowNumber
  currChunk :: "ColumnChunk option"
  currPage :: "Page option"
  currPageMin :: RowNumber
  currPageMax :: RowNumber
  currValues :: "(Value list \<times> error option) option"
  currBuf :: "Value list option"
  currBufN :: int
  currPageN :: int
  at :: IteratorResult
  maxDefinitionLevel :: int

text \<open>
  The loop of \<open>NewSyncIterator\<close> that assigns the bounds of every row group:
  \<^verbatim>\<open>rgsMin[i] = rn; rgsMax[i] = rn; rgsMax[i].Skip(rg.NumRows() + 1); rn.Skip(rg.NumRows())\<close>.
  The first argument is \<open>rn\<close>.
\<close>

fun rowGroupBounds :: "RowNumber \<Rightarrow> RowGroup list \<Rightarrow> RowNumber list \<times> RowNumber list" where
  "rowGroupBounds rn [] = ([], [])"
| "rowGroupBounds rn (rg # rest) =
     (let bounds = rowGroupBounds (Skip (NumRows rg) rn) rest
      in (rn # fst bounds, Skip (NumRows rg + 1) rn # snd bounds))"

definition emptyValue :: Value where
  "emptyValue = \<lparr>RepetitionLevel = 0, DefinitionLevel = 0, ByteArray = []\<rparr>"

definition emptyResult :: IteratorResult where
  "emptyResult = \<lparr>RowNumber = RN 0 0 0 0 0 0 0 0, Entries = [], OtherEntries = []\<rparr>"

text \<open>
  The options of the package, applied in order. Interning and the tracing span do not
  change what the iterator returns: \<open>SyncIteratorOptIntern\<close> leaves the model's
  fields as they are.
\<close>

datatype SyncIteratorOpt =
    SyncIteratorOptIntern
  | SyncIteratorOptPredicate Predicate
  | SyncIteratorOptColumnName string
  | SyncIteratorOptSelectAs string
  | SyncIteratorOptBufferSize int
  | SyncIteratorOptMaxDefinitionLevel int

fun applyOpt :: "SyncIterator \<Rightarrow> SyncIteratorOpt \<Rightarrow> SyncIterator" where
  "applyOpt i SyncIteratorOptIntern = i"
| "applyOpt i (SyncIteratorOptPredicate p) = i\<lparr>filter' := Some p\<rparr>"
| "applyOpt i (SyncIteratorOptColumnName n) = i\<lparr>columnName := n\<rparr>"
| "applyOpt i (SyncIteratorOptSelectAs n) = i\<lparr>selectAs := n\<rparr>"
| "applyOpt i (SyncIteratorOptBufferSize n) = i\<lparr>readSize := n\<rparr>"
| "applyOpt i (SyncIteratorOptMaxDefinitionLevel n) = i\<lparr>maxDefinitionLevel := n\<rparr>"

definition NewSyncIterator ::
  "RowGroup list \<Rightarrow> int \<Rightarrow> SyncIteratorOpt list \<Rightarrow> SyncIterator" where
  "NewSyncIterator rowGroups col opts =
     (let bounds = rowGroupBounds EmptyRowNumber rowGroups;
          i = \<lparr>column = col, columnName = [], selectAs = [], rgs = rowGroups,
               rgsMin = fst bounds, rgsMax = snd bounds, readSize = 1000, filter' = None,
               curr = EmptyRowNumber, currRowGroup = None,
               currRowGroupMin = RN 0 0 0 0 0 0 0 0,
               currRowGroupMax = RN 0 0 0 0 0 0 0 0,
               currChunk = None, currPage = None,
               currPageMin = RN 0 0 0 0 0 0 0 0,
               currPageMax = RN 0 0 0 0 0 0 0 0,
               currValues = None, currBuf = None, currBufN = 0, currPageN = 0,
               at = emptyResult, maxDefinitionLevel = MaxDefinitionLevel\<rparr>;
          i = foldl applyOpt i opts
      in if selectAs i \<noteq> [] then i\<lparr>at := (at i)\<lparr>Entries := [(selectAs i, emptyValue)]\<rparr>\<rparr>
         else i)"

fun position0 :: "RowNumber \<Rightarrow> int32" where
  "position0 (RN a b c d e f g h) = a"

section \<open>Child iterators\<close>

text \<open>
  The composite iterators hold their children as values of the interface
  \<^verbatim>\<open>Iterator\<close> and see them only through \<^verbatim>\<open>Next\<close> and \<^verbatim>\<open>SeekTo\<close>. A child is
  the parameter of the model: the list of answers it still has to give, each a result
  or an error. \<^verbatim>\<open>Next\<close> returns the first answer, and \<^verbatim>\<open>nil, nil\<close> when none is
  left (``Next returns nil when done''); \<^verbatim>\<open>SeekTo(t, d)\<close> is ``like Next but skips
  over results until reading >= the given location'', compared at level \<open>d\<close>.
\<close>

type_synonym Iterator = "(error + IteratorResult) list"

fun IteratorNext :: "Iterator \<Rightarrow> error + (IteratorResult option \<times> Iterator)" where
  "IteratorNext [] = Inr (None, [])"
| "IteratorNext (Inl e # rest) = Inl e"
| "IteratorNext (Inr r # rest) = Inr (Some r, rest)"

fun IteratorSeekTo :: "Iterator \<Rightarrow> RowNumber \<Rightarrow> int \<Rightarrow> error + (IteratorResult option \<times> Iterator)" where
  "IteratorSeekTo [] t d = Inr (None, [])"
| "IteratorSeekTo (Inl e # rest) t d = Inl e"
| "IteratorSeekTo (Inr r # rest) t d =
     (case CompareRowNumbers d (RowNumber r) t of
        None \<Rightarrow> Inl Panic
      | Some c \<Rightarrow> if c \<ge> 0 then Inr (Some r, rest) else IteratorSeekTo rest t d)"

text \<open>The interface \<^verbatim>\<open>GroupPredicate\<close>: \<open>KeepGroup\<close>, \<open>None\<close> when it panics.\<close>

type_synonym GroupPredicate = "IteratorResult \<Rightarrow> bool option"

section \<open>LeftJoinIterator: the constructor\<close>

record LeftJoinIterator =
  lj_definitionLevel :: int
  required :: "Iterator list"
  optional :: "Iterator list"
  peeksRequired :: "IteratorResult option list"
  peeksOptional :: "IteratorResult option list"
  lj_pred :: "GroupPredicate option"

text \<open>
  \<open>NewLeftJoinIterator\<close>. The options only choose the pool the result object is taken
  from, which the model, returning results by value, does not have.
\<close>

definition NewLeftJoinIterator ::
  "int \<Rightarrow> Iterator list \<Rightarrow> Iterator list \<Rightarrow> GroupPredicate option \<Rightarrow> error + LeftJoinIterator" where
  "NewLeftJoinIterator definitionLevel req opt p =
     (if length req = 0 then
        Inl (Failure ''left join iterator requires at least one required iterator'')
      else
        Inr \<lparr>lj_definitionLevel = definitionLevel, required = req, optional = opt,
             peeksRequired = replicate (length req) None,
             peeksOptional = replicate (length opt) None,
             lj_pred = p\<rparr>)"


section \<open>Replication-aware discard accounting (distributor)\<close>

datatype PushErrorReason = NO_ERROR | MAX_LIVE_TRACES | TRACE_TOO_LARGE | UNKNOWN_ERROR

text \<open>
  The aggregation loop of \<open>TestDiscardCountReplicationFactor\<close>: for every replica's
  response, \<^verbatim>\<open>traceIndex := keys[ringIndex]\<close>, a success adds one to
  \<^verbatim>\<open>numSuccessByTraceIndex[traceIndex]\<close> and any other reason overwrites
  \<^verbatim>\<open>lastErrorReasonByTraceIndex[traceIndex]\<close>.
\<close>

fun recordReason ::
  "int list \<times> PushErrorReason list \<Rightarrow> nat \<times> PushErrorReason \<Rightarrow> int list \<times> PushErrorReason list" where
  "recordReason (numSuccess, lastError) (traceIndex, err) =
     (if err = NO_ERROR then (numSuccess[traceIndex := numSuccess ! traceIndex + 1], lastError)
      else (numSuccess, lastError[traceIndex := err]))"

definition recordResponse ::
  "nat list \<Rightarrow> int list \<times> PushErrorReason list \<Rightarrow> PushErrorReason list \<Rightarrow> int list \<times> PushErrorReason list" where
  "recordResponse ks acc errorByTrace = foldl recordReason acc (zip ks errorByTrace)"

definition tally ::
  "nat list \<Rightarrow> nat \<Rightarrow> PushErrorReason list list \<Rightarrow> int list \<times> PushErrorReason list" where
  "tally ks n pushErrorByTrace =
     foldl (recordResponse ks) (replicate n 0, replicate n NO_ERROR) pushErrorByTrace"

text \<open>
  Modelled from the spec: \<open>countDiscardedSpans\<close> of the distributor, which is not among
  the sources (only its test is). Section 4.3.2: a trace whose number of successes
  reaches the quorum is accepted; otherwise it is discarded and its span count is added
  to the counter for its last error. The quorum is a parameter, a function of the
  replication factor: \<open>quorumSpec\<close> is the spec's \<open>\<lceil>R/2\<rceil> + 1\<close>.
\<close>

definition quorumSpec :: "int \<Rightarrow> int" where
  "quorumSpec R = (R + 1) div 2 + 1"

definition accepted :: "(int \<Rightarrow> int) \<Rightarrow> int \<Rightarrow> int \<Rightarrow> bool" where
  "accepted quorum repFactor numSuccess \<longleftrightarrow> numSuccess \<ge> quorum repFactor"

fun countDiscardedSpans ::
  "(int \<Rightarrow> int) \<Rightarrow> int list \<Rightarrow> PushErrorReason list \<Rightarrow> int list \<Rightarrow> int \<Rightarrow> int \<times> int \<times> int" where
  "countDiscardedSpans quorum (n # numSuccess) (e # lastError) (c # spanCount) repFactor =
     (case countDiscardedSpans quorum numSuccess lastError spanCount repFactor of
        (maxLive, tooLarge, unknown) \<Rightarrow>
          if accepted quorum repFactor n then (maxLive, tooLarge, unknown)
          else if e = MAX_LIVE_TRACES then (maxLive + c, tooLarge, unknown)
          else if e = TRACE_TOO_LARGE then (maxLive, tooLarge + c, unknown)
          else if e = UNKNOWN_ERROR then (maxLive, tooLarge, unknown + c)
          else (maxLive, tooLarge, unknown))"
| "countDiscardedSpans quorum numSuccess lastError spanCount repFactor = (0, 0, 0)"

text \<open>
  The table of \<open>TestDiscardCountReplicationFactor\<close>, in the order of the source, and the
  body of its loop: three traces of 5, 15 and 10 spans, \<^verbatim>\<open>keys := []int{0, 2, 1}\<close>, and
  the two counts the test compares with the expected ones.
\<close>

record DiscardCase =
  pushErrorByTrace :: "PushErrorReason list list"
  replicationFactor :: int
  expectedLiveTracesDiscardedCount :: int
  expectedTraceTooLargeDiscardedCount :: int

definition discardCase ::
  "PushErrorReason list list \<Rightarrow> int \<Rightarrow> int \<Rightarrow> int \<Rightarrow> DiscardCase" where
  "discardCase p r l t =
     \<lparr>pushErrorByTrace = p, replicationFactor = r, expectedLiveTracesDiscardedCount = l,
      expectedTraceTooLargeDiscardedCount = t\<rparr>"

definition discardCases :: "DiscardCase list" where
  "discardCases =
    [discardCase [[NO_ERROR, NO_ERROR, NO_ERROR], [NO_ERROR, NO_ERROR, NO_ERROR]] 3 0 0,
     discardCase [[NO_ERROR, NO_ERROR, NO_ERROR], [NO_ERROR, NO_ERROR, NO_ERROR],
                  [NO_ERROR, NO_ERROR, NO_ERROR]] 3 0 0,
     discardCase [[MAX_LIVE_TRACES, NO_ERROR, NO_ERROR], [NO_ERROR, NO_ERROR, NO_ERROR]] 3 5 0,
     discardCase [[MAX_LIVE_TRACES, NO_ERROR, NO_ERROR], [NO_ERROR, NO_ERROR, NO_ERROR],
                  [NO_ERROR, NO_ERROR, NO_ERROR]] 3 0 0,
     discardCase [[NO_ERROR, TRACE_TOO_LARGE, NO_ERROR], [NO_ERROR, NO_ERROR, NO_ERROR]] 3 0 10,
     discardCase [[NO_ERROR, TRACE_TOO_LARGE, NO_ERROR], [NO_ERROR, NO_ERROR, NO_ERROR],
                  [NO_ERROR, NO_ERROR, NO_ERROR]] 3 0 0,
     discardCase [[MAX_LIVE_TRACES, NO_ERROR, NO_ERROR], [MAX_LIVE_TRACES, NO_ERROR, NO_ERROR]] 3 5 0,
     discardCase [[NO_ERROR, TRACE_TOO_LARGE, NO_ERROR], [NO_ERROR, TRACE_TOO_LARGE, NO_ERROR],
                  [NO_ERROR, NO_ERROR, NO_ERROR]] 3 0 10,
     discardCase [[NO_ERROR, TRACE_TOO_LARGE, NO_ERROR], [NO_ERROR, TRACE_TOO_LARGE, NO_ERROR],
                  [NO_ERROR, TRACE_TOO_LARGE, NO_ERROR]] 3 0 10,
     discardCase [[NO_ERROR, TRACE_TOO_LARGE, NO_ERROR], [NO_ERROR, MAX_LIVE_TRACES, NO_ERROR],
                  [NO_ERROR, TRACE_TOO_LARGE, NO_ERROR]] 3 0 10,
     discardCase [[NO_ERROR, TRACE_TOO_LARGE, NO_ERROR], [NO_ERROR, NO_ERROR, TRACE_TOO_LARGE],
                  [NO_ERROR, MAX_LIVE_TRACES, TRACE_TOO_LARGE]] 3 10 15,
     discardCase [[NO_ERROR, TRACE_TOO_LARGE, NO_ERROR], [NO_ERROR, NO_ERROR, NO_ERROR],
                  [NO_ERROR, NO_ERROR, NO_ERROR]] 5 0 10,
     discardCase [[NO_ERROR, TRACE_TOO_LARGE, NO_ERROR], [NO_ERROR, NO_ERROR, NO_ERROR],
                  [NO_ERROR, NO_ERROR, NO_ERROR], [NO_ERROR, NO_ERROR, NO_ERROR]] 5 0 0,
     discardCase [[NO_ERROR, TRACE_TOO_LARGE, NO_ERROR]] 1 0 10]"

definition runDiscardCase :: "(int \<Rightarrow> int) \<Rightarrow> DiscardCase \<Rightarrow> int \<times> int" where
  "runDiscardCase quorum tc =
     (let t = tally [0, 2, 1] 3 (pushErrorByTrace tc)
      in case countDiscardedSpans quorum (fst t) (snd t) [5, 15, 10] (replicationFactor tc) of
           (liveTraceDiscardedCount, traceTooLongDiscardedCount, unknown) \<Rightarrow>
             (liveTraceDiscardedCount, traceTooLongDiscardedCount))"

definition discardCasePasses :: "(int \<Rightarrow> int) \<Rightarrow> DiscardCase \<Rightarrow> bool" where
  "discardCasePasses quorum tc \<longleftrightarrow>
     runDiscardCase quorum tc =
       (expectedLiveTracesDiscardedCount tc, expectedTraceTooLargeDiscardedCount tc)"


section \<open>Values used in the examples\<close>

definition kvEntry :: "string \<Rightarrow> string \<Rightarrow> string \<times> Value" where
  "kvEntry name bytes = (name, \<lparr>RepetitionLevel = 0, DefinitionLevel = 0, ByteArray = bytes\<rparr>)"

definition groupOf :: "(string \<times> Value) list \<Rightarrow> IteratorResult" where
  "groupOf es = \<lparr>RowNumber = EmptyRowNumber, Entries = es, OtherEntries = []\<rparr>"

definition rowGroupOfRows :: "int64 \<Rightarrow> RowGroup" where
  "rowGroupOfRows n = \<lparr>NumRows = n, ColumnChunks = []\<rparr>"

section \<open>SyncIterator\<close>

text \<open>
  \<open>popRowGroup\<close>: the head of \<^verbatim>\<open>c.rgs\<close>, \<^verbatim>\<open>c.rgsMin\<close> and \<^verbatim>\<open>c.rgsMax\<close>, or
  \<^verbatim>\<open>nil\<close> and two empty row numbers when no row group is left. The three slices have
  the same length by construction; an index out of range is a panic.
\<close>

definition popRowGroup ::
  "SyncIterator \<Rightarrow> error + ((RowGroup option \<times> RowNumber \<times> RowNumber) \<times> SyncIterator)" where
  "popRowGroup c =
     (case rgs c of
        [] \<Rightarrow> Inr ((None, EmptyRowNumber, EmptyRowNumber), c)
      | rg # rest \<Rightarrow>
         (case (rgsMin c, rgsMax c) of
            (mn # mins, mx # maxs) \<Rightarrow>
              Inr ((Some rg, mn, mx), c\<lparr>rgs := rest, rgsMin := mins, rgsMax := maxs\<rparr>)
          | _ \<Rightarrow> Inl Panic))"

definition setPage :: "Page option \<Rightarrow> SyncIterator \<Rightarrow> SyncIterator" where
  "setPage pg c =
     (let c = (if currPage c \<noteq> None
               then c\<lparr>curr := Preceding (currPageMax c), currPage := None\<rparr> else c);
          c = c\<lparr>currValues := None, currPageMax := EmptyRowNumber,
                currPageMin := EmptyRowNumber, currBufN := 0, currPageN := 0\<rparr>;
          c = (if pg = None \<and> currBuf c \<noteq> None then c\<lparr>currBuf := None\<rparr> else c)
      in case pg of
           None \<Rightarrow> c
         | Some p \<Rightarrow>
             c\<lparr>currPage := Some p, currPageMin := curr c,
               currPageMax := Skip (PageNumRows p + 1) (curr c),
               currValues := Some (PageValues p, PageReadError p)\<rparr>)"

definition closeCurrRowGroup :: "SyncIterator \<Rightarrow> SyncIterator" where
  "closeCurrRowGroup c =
     setPage None
       (c\<lparr>currRowGroup := None, currRowGroupMin := EmptyRowNumber,
          currRowGroupMax := EmptyRowNumber, currChunk := None\<rparr>)"

definition setRowGroup ::
  "RowGroup \<Rightarrow> RowNumber \<Rightarrow> RowNumber \<Rightarrow> ColumnChunk \<Rightarrow> SyncIterator \<Rightarrow> SyncIterator" where
  "setRowGroup rg mn mx cc c =
     (closeCurrRowGroup c)\<lparr>curr := mn, currRowGroup := Some rg, currRowGroupMin := mn,
                            currRowGroupMax := mx, currChunk := Some cc\<rparr>"

text \<open>\<^verbatim>\<open>rg.ColumnChunks()[c.column]\<close>, a panic when the index is out of range.\<close>

definition columnChunkOf :: "RowGroup \<Rightarrow> int \<Rightarrow> ColumnChunk option" where
  "columnChunkOf rg col =
     (if 0 \<le> col \<and> nat col < length (ColumnChunks rg) then Some (ColumnChunks rg ! nat col)
      else None)"

text \<open>
  \<open>ColumnChunkHelper\<close> is not among the sources. \<open>NextPage\<close> is taken from its use: the
  next page of the chunk, and at the end no page and \<^verbatim>\<open>io.EOF\<close> or the chunk's error.
\<close>

definition NextPage :: "ColumnChunk \<Rightarrow> Page option \<times> error option \<times> ColumnChunk" where
  "NextPage cc =
     (case Pages cc of
        [] \<Rightarrow> (None, Some (case ChunkError cc of None \<Rightarrow> EOF | Some e \<Rightarrow> e), cc)
      | p # rest \<Rightarrow> (Some p, None, cc\<lparr>Pages := rest\<rparr>))"

text \<open>
  \<^verbatim>\<open>ReadValues(buf)\<close> of the page's value reader: up to \<^verbatim>\<open>len(buf)\<close> values, and when
  no value is left zero values and \<^verbatim>\<open>io.EOF\<close> or the page's read error.
\<close>

definition ReadValues ::
  "nat \<Rightarrow> Value list \<times> error option \<Rightarrow> Value list \<times> error option \<times> (Value list \<times> error option)" where
  "ReadValues n reader =
     (case fst reader of
        [] \<Rightarrow> ([], Some (case snd reader of None \<Rightarrow> EOF | Some e \<Rightarrow> e), reader)
      | v # vs \<Rightarrow> (take n (v # vs), None, (drop n (v # vs), snd reader)))"

text \<open>
  \<^verbatim>\<open>Page.Slice(i, j)\<close> of the parquet library: the page of the rows \<open>i\<close> to \<open>j - 1\<close>, a
  row starting at each value of repetition level 0. The page of a repeated column keeps
  the repetition levels of the values it keeps.
\<close>

fun dropRows :: "nat \<Rightarrow> Value list \<Rightarrow> Value list" where
  "dropRows 0 vs = vs"
| "dropRows (Suc n) [] = []"
| "dropRows (Suc n) (v # vs) = dropRows n (dropWhile (\<lambda>w. RepetitionLevel w \<noteq> 0) vs)"

fun takeRows :: "nat \<Rightarrow> Value list \<Rightarrow> Value list" where
  "takeRows 0 vs = []"
| "takeRows (Suc n) [] = []"
| "takeRows (Suc n) (v # vs) =
     v # takeWhile (\<lambda>w. RepetitionLevel w \<noteq> 0) vs @
       takeRows n (dropWhile (\<lambda>w. RepetitionLevel w \<noteq> 0) vs)"

definition Slice :: "int64 \<Rightarrow> int64 \<Rightarrow> Page \<Rightarrow> Page" where
  "Slice i j p =
     (let vs = takeRows (nat (sint j - sint i)) (dropRows (nat (sint i)) (PageValues p))
      in p\<lparr>PageNumRows := j - i, PageValues := vs,
           PageRepetitionLevels :=
             (if PageRepetitionLevels p = [] then [] else map RepetitionLevel vs)\<rparr>)"

text \<open>
  \<open>makeResult\<close>: the iterator's own result object, with the value in its one entry when
  \<^verbatim>\<open>selectAs\<close> was given.
\<close>

definition makeResult :: "RowNumber \<Rightarrow> Value \<Rightarrow> SyncIterator \<Rightarrow> IteratorResult \<times> SyncIterator" where
  "makeResult t v c =
     (let a = (at c)\<lparr>RowNumber := t\<rparr>;
          a = (if length (Entries a) = 1 then a\<lparr>Entries := [(fst (Entries a ! 0), v)]\<rparr> else a)
      in (a, c\<lparr>at := a\<rparr>))"

text \<open>
  The inner loop of \<open>next\<close>: \<^verbatim>\<open>for c.currBufN < len(c.currBuf)\<close>. It returns the first
  value the filter keeps, or nothing when the buffer is used up.
\<close>

function consumeBuffer ::
  "Value list \<Rightarrow> SyncIterator \<Rightarrow> error + ((RowNumber \<times> Value) option \<times> SyncIterator)" where
  "consumeBuffer buf c =
     (if 0 \<le> currBufN c \<and> currBufN c < int (length buf) then
        (let v = buf ! nat (currBufN c)
         in case Next (RepetitionLevel v) (DefinitionLevel v) (maxDefinitionLevel c) (curr c) of
              None \<Rightarrow> Inl Panic
            | Some t \<Rightarrow>
               (let c = c\<lparr>curr := t, currBufN := currBufN c + 1, currPageN := currPageN c + 1\<rparr>
                in if (case filter' c of None \<Rightarrow> False | Some f \<Rightarrow> \<not> KeepValue f v)
                   then consumeBuffer buf c
                   else Inr (Some (curr c, v), c)))
      else if currBufN c < 0 then Inl Panic
      else Inr (None, c))"
  by pat_completeness auto
termination
  by (relation "measure (\<lambda>(buf, c). nat (int (length buf) - currBufN c))") auto

declare consumeBuffer.simps [simp del]

text \<open>
  One pass of a loop \<^verbatim>\<open>for { ... }\<close> ends in a \<^verbatim>\<open>continue\<close>, in a \<^verbatim>\<open>return\<close>, or
  goes on to the next block of the body; \<open>andThen\<close> runs the next block in the last case.
\<close>

datatype ('a, 's) flow = Continue 's | Proceed 's | Return 'a 's

text \<open>The block \<^verbatim>\<open>if c.currRowGroup == nil\<close> of \<open>next\<close>.\<close>

definition nextRowGroup :: "SyncIterator \<Rightarrow> error + (RowNumber \<times> Value option, SyncIterator) flow" where
  "nextRowGroup c =
     (if currRowGroup c = None then
        (case popRowGroup c of
           Inl e \<Rightarrow> Inl e
         | Inr ((None, mn, mx), c) \<Rightarrow> Inr (Return (EmptyRowNumber, None) c)
         | Inr ((Some rg, mn, mx), c) \<Rightarrow>
            (case columnChunkOf rg (column c) of
               None \<Rightarrow> Inl Panic
             | Some cc \<Rightarrow>
                if (case filter' c of None \<Rightarrow> False | Some f \<Rightarrow> \<not> KeepColumnChunk f cc)
                then Inr (Continue c)
                else Inr (Proceed (setRowGroup rg mn mx cc c))))
      else Inr (Proceed c))"

text \<open>The block \<^verbatim>\<open>if c.currPage == nil\<close> of \<open>next\<close>.\<close>

definition nextPage :: "SyncIterator \<Rightarrow> error + (RowNumber \<times> Value option, SyncIterator) flow" where
  "nextPage c =
     (if currPage c = None then
        (case currChunk c of
           None \<Rightarrow> Inl Panic
         | Some cc \<Rightarrow>
            (case NextPage cc of
               (pg, err, cc) \<Rightarrow>
                 (let c = c\<lparr>currChunk := Some cc\<rparr>
                  in if err \<noteq> None \<and> err \<noteq> Some EOF then Inl (the err)
                     else
                       (case pg of
                          None \<Rightarrow> Inr (Continue (closeCurrRowGroup c))
                        | Some p \<Rightarrow>
                           if err = Some EOF then Inr (Continue (closeCurrRowGroup c))
                           else if (case filter' c of None \<Rightarrow> False | Some f \<Rightarrow> \<not> KeepPage f p)
                           then Inr (Continue (c\<lparr>curr := Skip (PageNumRows p) (curr c)\<rparr>))
                           else Inr (Proceed (setPage (Some p) c))))))
      else Inr (Proceed c))"

text \<open>
  \<open>syncIteratorPoolGet\<close>: the slice the pool hands out, or a new one of the capacity asked
  for when that one is smaller; the model keeps its capacity. \<^verbatim>\<open>syncIteratorPool\<close> is
  process-wide and shared with every other iterator; the model takes it as empty, so
  that \<^verbatim>\<open>Get\<close> returns the value of \<^verbatim>\<open>New\<close>, the slice \<^verbatim>\<open>[]pq.Value{}\<close> of
  capacity 0. With a larger slice put back by another iterator the reads are larger, and
  a read size of 0 or less still reads.
\<close>

definition pooledCapacity :: nat where
  "pooledCapacity = 0"

definition syncIteratorPoolGet :: "int \<Rightarrow> nat" where
  "syncIteratorPoolGet capacity =
     (if int pooledCapacity < capacity then nat capacity else pooledCapacity)"

text \<open>
  The block ``read next batch of values if needed'': the buffer is taken from the pool
  with the capacity \<^verbatim>\<open>c.readSize\<close> and the length 0, and
  \<^verbatim>\<open>c.currBuf[:cap(c.currBuf)]\<close> is read full.
\<close>

definition nextBuffer :: "SyncIterator \<Rightarrow> error + (RowNumber \<times> Value option, SyncIterator) flow" where
  "nextBuffer c =
     (let c = (if currBuf c = None then c\<lparr>currBuf := Some []\<rparr> else c);
          buf = the (currBuf c)
      in if currBufN c \<ge> int (length buf) \<or> length buf = 0 then
           (case currValues c of
              None \<Rightarrow> Inl Panic
            | Some reader \<Rightarrow>
               (case ReadValues (syncIteratorPoolGet (readSize c)) reader of
                  (vs, err, reader) \<Rightarrow>
                    if err \<noteq> None \<and> err \<noteq> Some EOF then Inl (the err)
                    else
                      (let c = c\<lparr>currValues := Some reader, currBuf := Some vs, currBufN := 0\<rparr>
                       in if length vs = 0 then Inr (Continue (setPage None c))
                          else Inr (Proceed c))))
         else Inr (Proceed c))"

text \<open>The block ``consume current buffer until empty''.\<close>

definition nextValue :: "SyncIterator \<Rightarrow> error + (RowNumber \<times> Value option, SyncIterator) flow" where
  "nextValue c =
     (case consumeBuffer (the (currBuf c)) c of
        Inl e \<Rightarrow> Inl e
      | Inr (Some (rn, v), c) \<Rightarrow> Inr (Return (rn, Some v) c)
      | Inr (None, c) \<Rightarrow> Inr (Continue c))"

definition andThen ::
  "error + ('a, 's) flow \<Rightarrow> ('s \<Rightarrow> error + ('a, 's) flow) \<Rightarrow> error + ('a, 's) flow" where
  "andThen r f = (case r of Inr (Proceed c) \<Rightarrow> f c | _ \<Rightarrow> r)"

definition nextPass :: "SyncIterator \<Rightarrow> error + (RowNumber \<times> Value option, SyncIterator) flow" where
  "nextPass c = andThen (andThen (andThen (nextRowGroup c) nextPage) nextBuffer) nextValue"

text \<open>
  \<open>next\<close>: the passes of the loop until one returns. The result is the row number and
  the value, the empty row number and no value when nothing is left, or an error; a loop
  that does not end is \<open>None\<close>.
\<close>

partial_function (option) sync_next ::
  "SyncIterator \<Rightarrow> (error + ((RowNumber \<times> Value option) \<times> SyncIterator)) option" where
  "sync_next c =
     (case nextPass c of
        Inl e \<Rightarrow> Some (Inl e)
      | Inr (Return x c) \<Rightarrow> Some (Inr (x, c))
      | Inr (Continue c) \<Rightarrow> sync_next c
      | Inr (Proceed c) \<Rightarrow> sync_next c)"

declare sync_next.simps [code]

definition SyncIterator_Next ::
  "SyncIterator \<Rightarrow> (error + (IteratorResult option \<times> SyncIterator)) option" where
  "SyncIterator_Next c =
     (case sync_next c of
        None \<Rightarrow> None
      | Some (Inl e) \<Rightarrow> Some (Inl e)
      | Some (Inr ((rn, v), c)) \<Rightarrow>
          if \<not> Valid rn then Some (Inr (None, c))
          else (case v of
                  None \<Rightarrow> Some (Inl Panic)
                | Some v \<Rightarrow> (case makeResult rn v c of (r, c) \<Rightarrow> Some (Inr (Some r, c)))))"

text \<open>
  \<open>seekRowGroup\<close>: the current row group is closed when the target is not below its
  upper bound; then \<^verbatim>\<open>for c.currRowGroup == nil\<close> pops row groups until one has the
  target below its upper bound and passes the chunk filter. The result is \<open>done\<close>.
\<close>

function seekRowGroupLoop :: "RowNumber \<Rightarrow> int \<Rightarrow> SyncIterator \<Rightarrow> error + (bool \<times> SyncIterator)" where
  "seekRowGroupLoop seekTo definitionLevel c =
     (if currRowGroup c = None then
        (case popRowGroup c of
           Inl e \<Rightarrow> Inl e
         | Inr ((None, mn, mx), c') \<Rightarrow> Inr (True, c')
         | Inr ((Some rg, mn, mx), c') \<Rightarrow>
            (case CompareRowNumbers definitionLevel seekTo mx of
               None \<Rightarrow> Inl Panic
             | Some r \<Rightarrow>
                if r \<noteq> -1 then seekRowGroupLoop seekTo definitionLevel c'
                else
                  (case columnChunkOf rg (column c') of
                     None \<Rightarrow> Inl Panic
                   | Some cc \<Rightarrow>
                      if (case filter' c' of None \<Rightarrow> False | Some f \<Rightarrow> \<not> KeepColumnChunk f cc)
                      then seekRowGroupLoop seekTo definitionLevel c'
                      else Inr (False, setRowGroup rg mn mx cc c'))))
      else Inr (False, c))"
  by pat_completeness auto
termination
  by (relation "measure (\<lambda>(seekTo, d, c). length (rgs c))")
     (auto simp: popRowGroup_def split: list.splits)

declare seekRowGroupLoop.simps [simp del]

definition seekRowGroup :: "RowNumber \<Rightarrow> int \<Rightarrow> SyncIterator \<Rightarrow> error + (bool \<times> SyncIterator)" where
  "seekRowGroup seekTo definitionLevel c =
     (if currRowGroup c \<noteq> None then
        (case CompareRowNumbers definitionLevel seekTo (currRowGroupMax c) of
           None \<Rightarrow> Inl Panic
         | Some r \<Rightarrow>
            seekRowGroupLoop seekTo definitionLevel (if r \<ge> 0 then closeCurrRowGroup c else c))
      else seekRowGroupLoop seekTo definitionLevel c)"

text \<open>
  \<open>seekPages\<close>: the current page is dropped when the target is not below its upper
  bound; then \<^verbatim>\<open>for c.currPage == nil\<close> reads pages of the current chunk. When the chunk
  has no page left the row group is closed and the result is \<open>done\<close>.
\<close>

function seekPagesLoop :: "RowNumber \<Rightarrow> int \<Rightarrow> SyncIterator \<Rightarrow> error + (bool \<times> SyncIterator)" where
  "seekPagesLoop seekTo definitionLevel c =
     (if currPage c = None then
        (case currChunk c of
           None \<Rightarrow> Inl Panic
         | Some cc \<Rightarrow>
            (case NextPage cc of
               (pg, err, cc') \<Rightarrow>
                 (case pg of
                    None \<Rightarrow>
                      (if err = Some EOF \<or> err = None
                       then Inr (True, closeCurrRowGroup (c\<lparr>currChunk := Some cc'\<rparr>))
                       else Inl (the err))
                  | Some p \<Rightarrow>
                      (if err \<noteq> None then
                         (if err = Some EOF
                          then Inr (True, closeCurrRowGroup (c\<lparr>currChunk := Some cc'\<rparr>))
                          else Inl (the err))
                       else
                         (case CompareRowNumbers definitionLevel seekTo
                                 (Skip (PageNumRows p + 1) (curr c)) of
                            None \<Rightarrow> Inl Panic
                          | Some r \<Rightarrow>
                             if r \<ge> 0 then
                               seekPagesLoop seekTo definitionLevel
                                 (c\<lparr>currChunk := Some cc', curr := Skip (PageNumRows p) (curr c)\<rparr>)
                             else if (case filter' c of None \<Rightarrow> False | Some f \<Rightarrow> \<not> KeepPage f p)
                             then
                               seekPagesLoop seekTo definitionLevel
                                 (c\<lparr>currChunk := Some cc', curr := Skip (PageNumRows p) (curr c)\<rparr>)
                             else Inr (False, setPage (Some p) (c\<lparr>currChunk := Some cc'\<rparr>)))))))
      else Inr (False, c))"
  by pat_completeness auto
termination
  by (relation "measure (\<lambda>(seekTo, d, c). case currChunk c of None \<Rightarrow> 0 | Some cc \<Rightarrow> length (Pages cc))")
     (auto simp: NextPage_def split: list.splits)

declare seekPagesLoop.simps [simp del]

definition seekPages :: "RowNumber \<Rightarrow> int \<Rightarrow> SyncIterator \<Rightarrow> error + (bool \<times> SyncIterator)" where
  "seekPages seekTo definitionLevel c =
     (if currPage c \<noteq> None then
        (case CompareRowNumbers definitionLevel seekTo (currPageMax c) of
           None \<Rightarrow> Inl Panic
         | Some r \<Rightarrow>
            seekPagesLoop seekTo definitionLevel (if r \<ge> 0 then setPage None c else c))
      else seekPagesLoop seekTo definitionLevel c)"

text \<open>
  \<open>seekWithinPage\<close>. \<open>countNexts\<close> is its loop over the slice
  \<^verbatim>\<open>c.currPage.RepetitionLevels()\<close> from \<^verbatim>\<open>c.currPageN\<close> on: the result is
  \<^verbatim>\<open>shouldSkip\<close>. A negative \<^verbatim>\<open>c.currPageN\<close> is an index out of range as soon as
  the slice is not empty.
\<close>

fun countNexts :: "int list \<Rightarrow> int \<Rightarrow> int \<Rightarrow> bool" where
  "countNexts [] nextsRequired rowSkipRelative = False"
| "countNexts (replvl # rest) nextsRequired rowSkipRelative =
     (if nextsRequired + 1 > 1000 then True
      else if replvl = 0 then
        (if rowSkipRelative - 1 \<le> 0 then False
         else countNexts rest (nextsRequired + 1) (rowSkipRelative - 1))
      else countNexts rest (nextsRequired + 1) rowSkipRelative)"

definition seekWithinPage :: "RowNumber \<Rightarrow> int \<Rightarrow> SyncIterator \<Rightarrow> error + SyncIterator" where
  "seekWithinPage to definitionLevel c =
     (let rowSkipRelative = sint (position0 to - position0 (curr c))
      in if rowSkipRelative = 0 then Inr c
         else
           (case currPage c of
              None \<Rightarrow>
                if definitionLevel = 0 \<and>
                   (\<not> rowSkipRelative > 1000 \<or> sint (position0 to - position0 (currPageMin c)) < 1)
                then Inr c else Inl Panic
            | Some p \<Rightarrow>
               (let shouldSkip =
                      (if definitionLevel = 0 then Some (rowSkipRelative > 1000)
                       else if currPageN c < 0 then
                         (if PageRepetitionLevels p = [] then Some False else None)
                       else Some (countNexts (drop (nat (currPageN c)) (PageRepetitionLevels p))
                                    0 rowSkipRelative));
                    rowSkip = position0 to - position0 (currPageMin c)
                in if shouldSkip = None then Inl Panic
                   else if shouldSkip = Some False then Inr c
                   else if sint rowSkip < 1 then Inr c
                   else if sint rowSkip > sint (ucast (PageNumRows p) :: int32) then Inr c
                   else
                     (case TruncateRowNumber 0 to of
                        None \<Rightarrow> Inl Panic
                      | Some t \<Rightarrow>
                         (let pg = Slice (scast (rowSkip - 1)) (PageNumRows p) p;
                              c = c\<lparr>curr := Preceding t\<rparr>
                          in Inr (c\<lparr>currPage := Some pg, currPageMin := curr c,
                                     currValues := Some (PageValues pg, PageReadError pg),
                                     currPageN := 0, currBuf := None\<rparr>))))))"

text \<open>
  The last loop of \<open>SeekTo\<close>: \<open>next\<close> until the row number is not below the target at
  the given level.
\<close>

partial_function (option) seekScan ::
  "RowNumber \<Rightarrow> int \<Rightarrow> SyncIterator \<Rightarrow> (error + (IteratorResult option \<times> SyncIterator)) option" where
  "seekScan to definitionLevel c =
     (case sync_next c of
        None \<Rightarrow> None
      | Some (Inl e) \<Rightarrow> Some (Inl e)
      | Some (Inr ((rn, v), c)) \<Rightarrow>
          if \<not> Valid rn then Some (Inr (None, c))
          else
            (case CompareRowNumbers definitionLevel rn to of
               None \<Rightarrow> Some (Inl Panic)
             | Some r \<Rightarrow>
                if r \<ge> 0 then
                  (case v of
                     None \<Rightarrow> Some (Inl Panic)
                   | Some v \<Rightarrow> (case makeResult rn v c of (res, c) \<Rightarrow> Some (Inr (Some res, c))))
                else seekScan to definitionLevel c))"

declare seekScan.simps [code]

definition SyncIterator_SeekTo ::
  "RowNumber \<Rightarrow> int \<Rightarrow> SyncIterator \<Rightarrow> (error + (IteratorResult option \<times> SyncIterator)) option" where
  "SyncIterator_SeekTo to definitionLevel c =
     (case seekRowGroup to definitionLevel c of
        Inl e \<Rightarrow> Some (Inl e)
      | Inr (True, c) \<Rightarrow> Some (Inr (None, c))
      | Inr (False, c) \<Rightarrow>
         (case seekPages to definitionLevel c of
            Inl e \<Rightarrow> Some (Inl e)
          | Inr (True, c) \<Rightarrow> Some (Inr (None, c))
          | Inr (False, c) \<Rightarrow>
             (case seekWithinPage to definitionLevel c of
                Inl e \<Rightarrow> Some (Inl e)
              | Inr c \<Rightarrow> seekScan to definitionLevel c)))"

text \<open>
  A column of two row groups of one row each, every row one value, and a filter for the
  value \<open>b\<close>: it keeps every chunk, the pages that hold a \<open>b\<close>, and the values \<open>b\<close>.
\<close>

definition byteValue :: "string \<Rightarrow> Value" where
  "byteValue b = \<lparr>RepetitionLevel = 0, DefinitionLevel = 0, ByteArray = b\<rparr>"

definition onePageGroup :: "string \<Rightarrow> RowGroup" where
  "onePageGroup b =
     \<lparr>NumRows = 1,
      ColumnChunks = [\<lparr>Pages = [\<lparr>PageNumRows = 1, PageValues = [byteValue b],
                                  PageRepetitionLevels = [], PageReadError = None\<rparr>],
                       ChunkError = None\<rparr>]\<rparr>"

definition equalsB :: Predicate where
  "equalsB =
     \<lparr>KeepColumnChunk = (\<lambda>cc. True),
      KeepPage = (\<lambda>p. list_ex (\<lambda>v. ByteArray v = ''b'') (PageValues p)),
      KeepValue = (\<lambda>v. ByteArray v = ''b'')\<rparr>"

definition twoGroups :: SyncIterator where
  "twoGroups =
     NewSyncIterator [onePageGroup ''a'', onePageGroup ''b''] 0 [SyncIteratorOptPredicate equalsB]"

text \<open>What a call returned, and the same call on the iterator a call left behind.\<close>

definition returned :: "(error + ('a \<times> SyncIterator)) option \<Rightarrow> (error + 'a) option" where
  "returned r = map_option (map_sum id fst) r"

definition afterwards ::
  "(error + ('a \<times> SyncIterator)) option \<Rightarrow>
   (SyncIterator \<Rightarrow> (error + ('b \<times> SyncIterator)) option) \<Rightarrow> (error + ('b \<times> SyncIterator)) option" where
  "afterwards r f = (case r of Some (Inr (x, c)) \<Rightarrow> f c | Some (Inl e) \<Rightarrow> Some (Inl e) | None \<Rightarrow> None)"

text \<open>
  Two iterators with the filter for \<open>b\<close>, each over a column of three row groups of one
  row: \<open>leafX\<close> over the values \<open>a\<close>, \<open>b\<close>, \<open>b\<close>, whose results are the rows 1 and 2, and
  \<open>leafY\<close> over the values \<open>b\<close>, \<open>a\<close>, \<open>b\<close>, whose results are the rows 0 and 2.
\<close>

definition leafX :: SyncIterator where
  "leafX =
     NewSyncIterator [onePageGroup ''a'', onePageGroup ''b'', onePageGroup ''b''] 0
       [SyncIteratorOptPredicate equalsB, SyncIteratorOptSelectAs ''x'']"

definition leafY :: SyncIterator where
  "leafY =
     NewSyncIterator [onePageGroup ''b'', onePageGroup ''a'', onePageGroup ''b''] 0
       [SyncIteratorOptPredicate equalsB, SyncIteratorOptSelectAs ''y'']"

definition rowOf :: "int32 \<Rightarrow> string \<Rightarrow> IteratorResult" where
  "rowOf row name =
     \<lparr>RowNumber = RN row (-1) (-1) (-1) (-1) (-1) (-1) (-1),
      Entries = [(name, byteValue ''b'')], OtherEntries = []\<rparr>"

section \<open>Composite iterators\<close>

text \<open>
  \<open>JoinIterator\<close>, \<open>LeftJoinIterator\<close> and \<open>UnionIterator\<close> keep one peeked result per
  child in a slice parallel to the slice of children. Their methods \<open>peek\<close>, \<open>seek\<close>
  and the inner loop of \<open>collect\<close> are the same code on different fields; the model has
  each once, on the pair of the two slices. The two slices have the same length by
  construction.
\<close>

type_synonym slots = "IteratorResult option list \<times> Iterator list"

text \<open>
  \<open>peek\<close>: \<^verbatim>\<open>if peeks[iterNum] == nil { peeks[iterNum], err = iters[iterNum].Next() }\<close>.
\<close>

definition peekAt :: "nat \<Rightarrow> slots \<Rightarrow> error + (IteratorResult option \<times> slots)" where
  "peekAt iterNum s =
     (case s of (ps, its) \<Rightarrow>
        (case ps ! iterNum of
           Some r \<Rightarrow> Inr (Some r, s)
         | None \<Rightarrow>
            (case IteratorNext (its ! iterNum) of
               Inl e \<Rightarrow> Inl e
             | Inr (r, it) \<Rightarrow> Inr (r, (ps[iterNum := r], its[iterNum := it])))))"

text \<open>
  \<open>seek\<close> and the body of the loops of \<open>seekAll\<close>:
  \<^verbatim>\<open>if peeks[iterNum] == nil || CompareRowNumbers(d, peeks[iterNum].RowNumber, t) == -1\<close>
  then \<^verbatim>\<open>peeks[iterNum], err = iters[iterNum].SeekTo(t, d)\<close>.
\<close>

definition seekAt :: "nat \<Rightarrow> RowNumber \<Rightarrow> int \<Rightarrow> slots \<Rightarrow> error + slots" where
  "seekAt iterNum t d s =
     (case s of (ps, its) \<Rightarrow>
        (case (case ps ! iterNum of
                 None \<Rightarrow> Some True
               | Some p \<Rightarrow> map_option (\<lambda>c. c = -1) (CompareRowNumbers d (RowNumber p) t)) of
           None \<Rightarrow> Inl Panic
         | Some False \<Rightarrow> Inr s
         | Some True \<Rightarrow>
            (case IteratorSeekTo (its ! iterNum) t d of
               Inl e \<Rightarrow> Inl e
             | Inr (r, it) \<Rightarrow> Inr (ps[iterNum := r], its[iterNum := it]))))"

text \<open>
  The inner loop of \<open>collect\<close> for one child:
  \<^verbatim>\<open>for peeks[i] != nil && EqualRowNumber(d, peeks[i].RowNumber, rowNumber)\<close>, appending
  the peek to the result and taking the child's next result.
\<close>

function collectWhile ::
  "int \<Rightarrow> RowNumber \<Rightarrow> IteratorResult \<Rightarrow> IteratorResult option \<Rightarrow> Iterator \<Rightarrow>
   error + (IteratorResult \<times> IteratorResult option \<times> Iterator)" where
  "collectWhile d rowNumber result None it = Inr (result, None, it)"
| "collectWhile d rowNumber result (Some p) it =
     (case EqualRowNumber d (RowNumber p) rowNumber of
        None \<Rightarrow> Inl Panic
      | Some False \<Rightarrow> Inr (result, Some p, it)
      | Some True \<Rightarrow>
         (case IteratorNext it of
            Inl e \<Rightarrow> Inl e
          | Inr (r, it') \<Rightarrow> collectWhile d rowNumber (Append result p) r it'))"
  by pat_completeness auto
termination
proof (relation "measure (\<lambda>(d, rn, result, p, it). 2 * length it + (case p of None \<Rightarrow> 0 | Some r \<Rightarrow> 1))", goal_cases)
  case 1
  show ?case by simp
next
  case (2 d rowNumber result p it x2 x2a x y)
  then show ?case by (cases it rule: IteratorNext.cases) (auto split: option.splits)
qed

declare collectWhile.simps [simp del]

text \<open>The outer loop of \<open>collect\<close>, over the given indices.\<close>

fun collectEach ::
  "int \<Rightarrow> RowNumber \<Rightarrow> nat list \<Rightarrow> IteratorResult \<Rightarrow> slots \<Rightarrow> error + (IteratorResult \<times> slots)" where
  "collectEach d rowNumber [] result s = Inr (result, s)"
| "collectEach d rowNumber (i # is) result s =
     (case s of (ps, its) \<Rightarrow>
        (case collectWhile d rowNumber result (ps ! i) (its ! i) of
           Inl e \<Rightarrow> Inl e
         | Inr (result, p, it) \<Rightarrow>
             collectEach d rowNumber is result (ps[i := p], its[i := it])))"

text \<open>\<^verbatim>\<open>result.Reset(); result.RowNumber = rowNumber\<close>.\<close>

definition resetResult :: "RowNumber \<Rightarrow> IteratorResult" where
  "resetResult rowNumber = \<lparr>RowNumber = rowNumber, Entries = [], OtherEntries = []\<rparr>"

text \<open>\<^verbatim>\<open>fmt.Errorf("...: %w", err)\<close> wraps an error; a panic is not an error value.\<close>

definition wrapError :: "string \<Rightarrow> error \<Rightarrow> error" where
  "wrapError msg e = (if e = Panic then Panic else Wrapped msg e)"

text \<open>
  The first loop of \<open>Next\<close> of the two joins: peek every child from \<open>i\<close> on, and stop
  with \<open>False\<close> at the first that has no result.
\<close>

function peekAll :: "nat \<Rightarrow> slots \<Rightarrow> error + (bool \<times> slots)" where
  "peekAll i s =
     (if i < length (snd s) then
        (case peekAt i s of
           Inl e \<Rightarrow> Inl e
         | Inr (None, s') \<Rightarrow> Inr (False, s')
         | Inr (Some r, s') \<Rightarrow> peekAll (i + 1) s')
      else Inr (True, s))"
  by pat_completeness auto
termination
  by (relation "measure (\<lambda>(i, s). length (snd s) - i)")
     (auto simp: peekAt_def split: prod.splits option.splits sum.splits)

declare peekAll.simps [simp del]

text \<open>
  The second loop of \<open>Next\<close> of the two joins, from \<open>iterNum\<close> on: seek the child to the
  row number of the first peek; return when it is exhausted; swap it to the front and
  restart when its row number is higher at the level of the join. \<open>trunc\<close> tells whether
  \<open>seek\<close> truncates the target first, as \<open>JoinIterator.seek\<close> does.
\<close>

function seekRest :: "bool \<Rightarrow> int \<Rightarrow> nat \<Rightarrow> slots \<Rightarrow> error + (IteratorResult option, slots) flow" where
  "seekRest trunc d iterNum s =
     (if iterNum < length (snd s) then
        (case fst s ! 0 of
           None \<Rightarrow> Inl Panic
         | Some p0 \<Rightarrow>
            (case (if trunc then TruncateRowNumber d (RowNumber p0) else Some (RowNumber p0)) of
               None \<Rightarrow> Inl Panic
             | Some t \<Rightarrow>
                (case seekAt iterNum t d s of
                   Inl e \<Rightarrow> Inl e
                 | Inr s' \<Rightarrow>
                    (case fst s' ! iterNum of
                       None \<Rightarrow> Inr (Return None s')
                     | Some p \<Rightarrow>
                        (case CompareRowNumbers d (RowNumber p) (RowNumber p0) of
                           None \<Rightarrow> Inl Panic
                         | Some c \<Rightarrow>
                            if c = 1 then
                              Inr (Continue ((fst s')[0 := fst s' ! iterNum, iterNum := fst s' ! 0],
                                             (snd s')[0 := snd s' ! iterNum, iterNum := snd s' ! 0]))
                            else seekRest trunc d (iterNum + 1) s')))))
      else Inr (Proceed s))"
  by pat_completeness auto
termination
  by (relation "measure (\<lambda>(trunc, d, iterNum, s). length (snd s) - iterNum)")
     (auto simp: seekAt_def split: prod.splits option.splits sum.splits bool.splits)

declare seekRest.simps [simp del]

text \<open>\<^verbatim>\<open>j.pred == nil || j.pred.KeepGroup(result)\<close>; a panic of the predicate is \<open>None\<close>.\<close>

definition keepGroup :: "GroupPredicate option \<Rightarrow> IteratorResult \<Rightarrow> bool option" where
  "keepGroup p result = (case p of None \<Rightarrow> Some True | Some f \<Rightarrow> f result)"

text \<open>
  The two loops at the head of a pass of \<open>Next\<close>, the same code in \<open>JoinIterator\<close> and
  \<open>LeftJoinIterator\<close>: when the first peek is empty every child is peeked, and the pass
  returns nothing if one has no result; then the other children are brought to the
  row number of the first. \<^verbatim>\<open>j.peeks[0]\<close> panics when there is no child.
\<close>

definition alignChildren :: "bool \<Rightarrow> int \<Rightarrow> slots \<Rightarrow> error + (IteratorResult option, slots) flow" where
  "alignChildren trunc d s =
     (if length (fst s) = 0 then Inl Panic
      else
        (case (if fst s ! 0 = None then peekAll 0 s else Inr (True, s)) of
           Inl e \<Rightarrow> Inl e
         | Inr (False, s) \<Rightarrow> Inr (Return None s)
         | Inr (True, s) \<Rightarrow> seekRest trunc d 1 s))"

subsection \<open>JoinIterator\<close>

record JoinIterator =
  definitionLevel :: int
  iters :: "Iterator list"
  peeks :: "IteratorResult option list"
  pred :: "GroupPredicate option"

definition NewJoinIterator :: "int \<Rightarrow> Iterator list \<Rightarrow> GroupPredicate option \<Rightarrow> JoinIterator" where
  "NewJoinIterator d its p =
     \<lparr>definitionLevel = d, iters = its, peeks = replicate (length its) None, pred = p\<rparr>"

definition JoinIterator_slots :: "JoinIterator \<Rightarrow> slots" where
  "JoinIterator_slots j = (peeks j, iters j)"

definition JoinIterator_with :: "JoinIterator \<Rightarrow> slots \<Rightarrow> JoinIterator" where
  "JoinIterator_with j s = j\<lparr>peeks := fst s, iters := snd s\<rparr>"

definition JoinIterator_collect :: "JoinIterator \<Rightarrow> RowNumber \<Rightarrow> error + (IteratorResult \<times> JoinIterator)" where
  "JoinIterator_collect j rowNumber =
     (case collectEach (definitionLevel j) rowNumber [0 ..< length (iters j)]
             (resetResult rowNumber) (JoinIterator_slots j) of
        Inl e \<Rightarrow> Inl e
      | Inr (result, s) \<Rightarrow> Inr (result, JoinIterator_with j s))"

text \<open>
  One pass of the loop \<^verbatim>\<open>outer\<close> of \<open>JoinIterator.Next\<close>: the two loops, then
  \<open>collect\<close> at the row number of the first peek and the group predicate.
\<close>

definition JoinIterator_pass :: "JoinIterator \<Rightarrow> error + (IteratorResult option, JoinIterator) flow" where
  "JoinIterator_pass j =
     (case alignChildren True (definitionLevel j) (JoinIterator_slots j) of
        Inl e \<Rightarrow> Inl e
      | Inr (Return r s) \<Rightarrow> Inr (Return r (JoinIterator_with j s))
      | Inr (Continue s) \<Rightarrow> Inr (Continue (JoinIterator_with j s))
      | Inr (Proceed s) \<Rightarrow>
         (case fst s ! 0 of
            None \<Rightarrow> Inl Panic
          | Some p0 \<Rightarrow>
             (case JoinIterator_collect (JoinIterator_with j s) (RowNumber p0) of
                Inl e \<Rightarrow> Inl (wrapError ''join iterator collect failed'' e)
              | Inr (result, j) \<Rightarrow>
                 (case keepGroup (pred j) result of
                    None \<Rightarrow> Inl Panic
                  | Some True \<Rightarrow> Inr (Return (Some result) j)
                  | Some False \<Rightarrow> Inr (Continue j)))))"

text \<open>\<open>JoinIterator.Next\<close>: passes until one returns. A loop that does not end is \<open>None\<close>.\<close>

partial_function (option) JoinIterator_Next ::
  "JoinIterator \<Rightarrow> (error + (IteratorResult option \<times> JoinIterator)) option" where
  "JoinIterator_Next j =
     (case JoinIterator_pass j of
        Inl e \<Rightarrow> Some (Inl e)
      | Inr (Return r j) \<Rightarrow> Some (Inr (r, j))
      | Inr (Continue j) \<Rightarrow> JoinIterator_Next j
      | Inr (Proceed j) \<Rightarrow> JoinIterator_Next j)"

declare JoinIterator_Next.simps [code]

subsection \<open>LeftJoinIterator\<close>

definition LeftJoinIterator_required :: "LeftJoinIterator \<Rightarrow> slots" where
  "LeftJoinIterator_required j = (peeksRequired j, required j)"

definition LeftJoinIterator_optional :: "LeftJoinIterator \<Rightarrow> slots" where
  "LeftJoinIterator_optional j = (peeksOptional j, optional j)"

definition LeftJoinIterator_with :: "LeftJoinIterator \<Rightarrow> slots \<Rightarrow> LeftJoinIterator" where
  "LeftJoinIterator_with j s = j\<lparr>peeksRequired := fst s, required := snd s\<rparr>"

definition LeftJoinIterator_withOptional :: "LeftJoinIterator \<Rightarrow> slots \<Rightarrow> LeftJoinIterator" where
  "LeftJoinIterator_withOptional j s = j\<lparr>peeksOptional := fst s, optional := snd s\<rparr>"

text \<open>\<open>seekAllOptional\<close>: the loop over the optional children, over the given indices.\<close>

fun seekEach :: "RowNumber \<Rightarrow> int \<Rightarrow> nat list \<Rightarrow> slots \<Rightarrow> error + slots" where
  "seekEach t d [] s = Inr s"
| "seekEach t d (iterNum # rest) s =
     (case seekAt iterNum t d s of
        Inl e \<Rightarrow> Inl e
      | Inr s \<Rightarrow> seekEach t d rest s)"

definition seekAllOptional :: "RowNumber \<Rightarrow> int \<Rightarrow> LeftJoinIterator \<Rightarrow> error + LeftJoinIterator" where
  "seekAllOptional t d j =
     (case seekEach t d [0 ..< length (optional j)] (LeftJoinIterator_optional j) of
        Inl e \<Rightarrow> Inl e
      | Inr s \<Rightarrow> Inr (LeftJoinIterator_withOptional j s))"

text \<open>
  \<open>LeftJoinIterator.collect\<close>: seek the optional children to the row number, then collect
  from the required children, then from the optional ones.
\<close>

definition LeftJoinIterator_collect ::
  "LeftJoinIterator \<Rightarrow> RowNumber \<Rightarrow> error + (IteratorResult \<times> LeftJoinIterator)" where
  "LeftJoinIterator_collect j rowNumber =
     (case seekAllOptional rowNumber (lj_definitionLevel j) j of
        Inl e \<Rightarrow> Inl e
      | Inr j \<Rightarrow>
         (case collectEach (lj_definitionLevel j) rowNumber [0 ..< length (required j)]
                 (resetResult rowNumber) (LeftJoinIterator_required j) of
            Inl e \<Rightarrow> Inl e
          | Inr (result, s) \<Rightarrow>
             (case collectEach (lj_definitionLevel j) rowNumber [0 ..< length (optional j)]
                     result (LeftJoinIterator_optional j) of
                Inl e \<Rightarrow> Inl e
              | Inr (result, so) \<Rightarrow>
                  Inr (result, LeftJoinIterator_withOptional (LeftJoinIterator_with j s) so))))"

text \<open>
  One pass of the loop \<^verbatim>\<open>outer\<close> of \<open>LeftJoinIterator.Next\<close>, on the required
  children; its \<open>seek\<close> does not truncate the target.
\<close>

definition LeftJoinIterator_pass ::
  "LeftJoinIterator \<Rightarrow> error + (IteratorResult option, LeftJoinIterator) flow" where
  "LeftJoinIterator_pass j =
     (case alignChildren False (lj_definitionLevel j) (LeftJoinIterator_required j) of
        Inl e \<Rightarrow> Inl e
      | Inr (Return r s) \<Rightarrow> Inr (Return r (LeftJoinIterator_with j s))
      | Inr (Continue s) \<Rightarrow> Inr (Continue (LeftJoinIterator_with j s))
      | Inr (Proceed s) \<Rightarrow>
         (case fst s ! 0 of
            None \<Rightarrow> Inl Panic
          | Some p0 \<Rightarrow>
             (case LeftJoinIterator_collect (LeftJoinIterator_with j s) (RowNumber p0) of
                Inl e \<Rightarrow> Inl e
              | Inr (result, j) \<Rightarrow>
                 (case keepGroup (lj_pred j) result of
                    None \<Rightarrow> Inl Panic
                  | Some True \<Rightarrow> Inr (Return (Some result) j)
                  | Some False \<Rightarrow> Inr (Continue j)))))"

partial_function (option) LeftJoinIterator_Next ::
  "LeftJoinIterator \<Rightarrow> (error + (IteratorResult option \<times> LeftJoinIterator)) option" where
  "LeftJoinIterator_Next j =
     (case LeftJoinIterator_pass j of
        Inl e \<Rightarrow> Some (Inl e)
      | Inr (Return r j) \<Rightarrow> Some (Inr (r, j))
      | Inr (Continue j) \<Rightarrow> LeftJoinIterator_Next j
      | Inr (Proceed j) \<Rightarrow> LeftJoinIterator_Next j)"

declare LeftJoinIterator_Next.simps [code]

subsection \<open>UnionIterator\<close>

record UnionIterator =
  u_definitionLevel :: int
  u_iters :: "Iterator list"
  lowestIters :: "nat list"
  u_peeks :: "IteratorResult option list"
  u_pred :: "GroupPredicate option"

definition NewUnionIterator :: "int \<Rightarrow> Iterator list \<Rightarrow> GroupPredicate option \<Rightarrow> UnionIterator" where
  "NewUnionIterator d its p =
     \<lparr>u_definitionLevel = d, u_iters = its, lowestIters = replicate (length its) 0,
      u_peeks = replicate (length its) None, u_pred = p\<rparr>"

text \<open>
  The loop \<^verbatim>\<open>for iterNum := range u.iters\<close> of \<open>UnionIterator.Next\<close>, over the given
  indices: it peeks every child and keeps the lowest row number seen and the children
  that have it at the level of the union.
\<close>

fun findLowest ::
  "int \<Rightarrow> nat list \<Rightarrow> RowNumber \<times> nat list \<Rightarrow> slots \<Rightarrow> error + ((RowNumber \<times> nat list) \<times> slots)" where
  "findLowest d [] low s = Inr (low, s)"
| "findLowest d (iterNum # rest) low s =
     (case peekAt iterNum s of
        Inl e \<Rightarrow> Inl (wrapError ''union iterator peek failed'' e)
      | Inr (None, s) \<Rightarrow> findLowest d rest low s
      | Inr (Some rn, s) \<Rightarrow>
         (case CompareRowNumbers d (RowNumber rn) (fst low) of
            None \<Rightarrow> Inl Panic
          | Some c \<Rightarrow>
             if c = -1 then findLowest d rest (RowNumber rn, [iterNum]) s
             else if c = 0 then findLowest d rest (fst low, snd low @ [iterNum]) s
             else findLowest d rest low s))"

text \<open>One pass of the loop of \<open>UnionIterator.Next\<close>.\<close>

definition UnionIterator_pass :: "UnionIterator \<Rightarrow> error + (IteratorResult option, UnionIterator) flow" where
  "UnionIterator_pass u =
     (case findLowest (u_definitionLevel u) [0 ..< length (u_iters u)] (MaxRowNumber, [])
             (u_peeks u, u_iters u) of
        Inl e \<Rightarrow> Inl e
      | Inr ((lowestRowNumber, lowest), s) \<Rightarrow>
         (case collectEach (u_definitionLevel u) lowestRowNumber lowest
                 (resetResult lowestRowNumber) s of
            Inl e \<Rightarrow> Inl (wrapError ''union iterator collect failed'' e)
          | Inr (result, s) \<Rightarrow>
             (let u = u\<lparr>lowestIters := lowest, u_peeks := fst s, u_iters := snd s\<rparr>
              in if length lowest > 0 then
                   (case keepGroup (u_pred u) result of
                      None \<Rightarrow> Inl Panic
                    | Some False \<Rightarrow> Inr (Continue u)
                    | Some True \<Rightarrow> Inr (Return (Some result) u))
                 else Inr (Return None u))))"

partial_function (option) UnionIterator_Next ::
  "UnionIterator \<Rightarrow> (error + (IteratorResult option \<times> UnionIterator)) option" where
  "UnionIterator_Next u =
     (case UnionIterator_pass u of
        Inl e \<Rightarrow> Some (Inl e)
      | Inr (Return r u) \<Rightarrow> Some (Inr (r, u))
      | Inr (Continue u) \<Rightarrow> UnionIterator_Next u
      | Inr (Proceed u) \<Rightarrow> UnionIterator_Next u)"

declare UnionIterator_Next.simps [code]

subsection \<open>Reading an iterator to the end\<close>

text \<open>
  ``Results are read by calling Next() until it returns nil'': \<open>readAll nxt it\<close> is the
  list of the results of the successive calls of \<open>nxt\<close>, up to the first call that
  returns nothing; an error ends it.
\<close>

partial_function (option) readAll ::
  "('s \<Rightarrow> (error + (IteratorResult option \<times> 's)) option) \<Rightarrow> 's \<Rightarrow> (error + IteratorResult list) option" where
  "readAll nxt it =
     (case nxt it of
        None \<Rightarrow> None
      | Some (Inl e) \<Rightarrow> Some (Inl e)
      | Some (Inr (None, it')) \<Rightarrow> Some (Inr [])
      | Some (Inr (Some r, it')) \<Rightarrow>
          Option.bind (readAll nxt it')
            (\<lambda>rest. Some (case rest of Inl e \<Rightarrow> Inl e | Inr rs \<Rightarrow> Inr (r # rs))))"

declare readAll.simps [code]

section \<open>Keys, child results and pending results, for the proofs\<close>

text \<open>
  \<open>keyOf d t\<close> is the part of a row number that the comparison at level \<open>d\<close> reads, as
  signed integers; lists of integers are ordered lexicographically. \<open>rowKey d r\<close> is the
  key of the row number of a result: the row-number group of \<open>r\<close> at level \<open>d\<close>.
\<close>

definition keyOf :: "int \<Rightarrow> RowNumber \<Rightarrow> int list" where
  "keyOf d t = map sint (take (nat (d + 1)) (rn_list t))"

definition rowKey :: "int \<Rightarrow> IteratorResult \<Rightarrow> int list" where
  "rowKey d r = keyOf d (RowNumber r)"

text \<open>
  A child that returns the given results, in order, and no error. \<open>ascending d xs\<close>: the
  results are in ascending order at level \<open>d\<close>, several results of one group allowed.
\<close>

definition returning :: "IteratorResult list \<Rightarrow> Iterator" where
  "returning xs = map Inr xs"

definition ascending :: "int \<Rightarrow> IteratorResult list \<Rightarrow> bool" where
  "ascending d xs = sorted (map (rowKey d) xs)"

text \<open>
  The results a child has still to give to its parent: the peeked result, if any, and
  the results the child has not returned yet.
\<close>

definition pending1 :: "IteratorResult option \<Rightarrow> IteratorResult list \<Rightarrow> IteratorResult list" where
  "pending1 p xs = (case p of None \<Rightarrow> xs | Some r \<Rightarrow> r # xs)"

definition pending :: "IteratorResult option list \<Rightarrow> IteratorResult list list \<Rightarrow> IteratorResult list list" where
  "pending ps xss = map2 pending1 ps xss"

definition headOption :: "'a list \<Rightarrow> 'a option" where
  "headOption xs = (case xs of [] \<Rightarrow> None | x # rest \<Rightarrow> Some x)"

text \<open>
  Of the pending results of the children: the groups every child has, the groups some
  child has, and the number of results. \<open>trimmed d t P P'\<close>: every list of \<open>P'\<close> is the
  list of \<open>P\<close> at the same place without some first results, all of them below \<open>t\<close> at
  level \<open>d\<close>.
\<close>

definition commonKeys :: "int \<Rightarrow> IteratorResult list list \<Rightarrow> int list set" where
  "commonKeys d P = {g. \<forall>xs\<in>set P. g \<in> rowKey d ` set xs}"

definition allKeys :: "int \<Rightarrow> IteratorResult list list \<Rightarrow> int list set" where
  "allKeys d P = (\<Union>xs\<in>set P. rowKey d ` set xs)"

definition remaining :: "IteratorResult list list \<Rightarrow> nat" where
  "remaining P = sum_list (map length P)"

definition trimmed :: "int \<Rightarrow> int list \<Rightarrow> IteratorResult list list \<Rightarrow> IteratorResult list list \<Rightarrow> bool" where
  "trimmed d t P P' \<longleftrightarrow>
     length P' = length P \<and>
     (\<forall>j<length P. \<exists>ys. P ! j = ys @ P' ! j \<and> (\<forall>y\<in>set ys. rowKey d y < t))"

text \<open>
  What the second loop of a pass, started at child \<open>i\<close> with the first peek \<open>p0\<close>, leaves
  behind, in terms of the pending results \<open>P\<close> at its start: it returns nothing when a
  child has no result left at or above the group of \<open>p0\<close>; it restarts with a child of
  a higher group moved to the front; or it goes on with every child from \<open>i\<close> on peeked
  at the group of \<open>p0\<close>.
\<close>

definition seekRestPost ::
  "int \<Rightarrow> IteratorResult \<Rightarrow> nat \<Rightarrow> IteratorResult option list \<Rightarrow> IteratorResult list list \<Rightarrow>
   (IteratorResult option, slots) flow \<Rightarrow> bool" where
  "seekRestPost d p0 i ps P out =
     (case out of
        Return r s' \<Rightarrow>
          r = None \<and> (\<exists>P1 k. trimmed d (rowKey d p0) P P1 \<and> k < length P \<and> P1 ! k = [])
      | Continue s' \<Rightarrow>
          (\<exists>ps1 xss1 k p.
             length ps1 = length P \<and> length xss1 = length P \<and>
             trimmed d (rowKey d p0) P (pending ps1 xss1) \<and>
             0 < k \<and> k < length P \<and> ps1 ! k = Some p \<and> rowKey d p0 < rowKey d p \<and>
             ps1 ! 0 = Some p0 \<and>
             s' = (ps1[0 := ps1 ! k, k := ps1 ! 0],
                   map returning (xss1[0 := xss1 ! k, k := xss1 ! 0])))
      | Proceed s' \<Rightarrow>
          (\<exists>ps' xss'.
             s' = (ps', map returning xss') \<and> length ps' = length P \<and> length xss' = length P \<and>
             trimmed d (rowKey d p0) P (pending ps' xss') \<and>
             (\<forall>k<i. ps' ! k = ps ! k) \<and>
             (\<forall>k. i \<le> k \<and> k < length P \<longrightarrow> (\<exists>p. ps' ! k = Some p \<and> rowKey d p = rowKey d p0))))"

text \<open>
  What the two loops at the head of a pass leave behind, in terms of the pending results
  \<open>P\<close> at the start of the pass: they return nothing only when no group is common to all
  children; they restart with the same common groups, no more pending results and a
  first peek of a higher group; or they go on with every child peeked at one group.
\<close>

definition alignPost ::
  "int \<Rightarrow> IteratorResult list list \<Rightarrow> (IteratorResult option, slots) flow \<Rightarrow> bool" where
  "alignPost d P out =
     (case out of
        Return r s' \<Rightarrow> r = None \<and> commonKeys d P = {}
      | Continue s' \<Rightarrow>
          (\<exists>ps' xss' p p0 rest.
             s' = (ps', map returning xss') \<and> length ps' = length P \<and> length xss' = length P \<and>
             (\<forall>xs\<in>set (pending ps' xss'). ascending d xs) \<and>
             commonKeys d (pending ps' xss') = commonKeys d P \<and>
             remaining (pending ps' xss') \<le> remaining P \<and>
             allKeys d (pending ps' xss') \<subseteq> allKeys d P \<and>
             P ! 0 = p0 # rest \<and> ps' ! 0 = Some p \<and>
             rowKey d p0 < rowKey d p \<and> rowKey d p \<in> allKeys d P)
      | Proceed s' \<Rightarrow>
          (\<exists>ps' xss' p0.
             s' = (ps', map returning xss') \<and> length ps' = length P \<and> length xss' = length P \<and>
             (\<forall>xs\<in>set (pending ps' xss'). ascending d xs) \<and>
             commonKeys d (pending ps' xss') = commonKeys d P \<and>
             remaining (pending ps' xss') \<le> remaining P \<and>
             allKeys d (pending ps' xss') \<subseteq> allKeys d P \<and>
             ps' ! 0 = Some p0 \<and>
             (\<forall>k<length P. \<exists>p. ps' ! k = Some p \<and> rowKey d p = rowKey d p0)))"

text \<open>
  The results of group \<open>g\<close> at the head of the pending results, child after child, and the
  pending results without them.
\<close>

definition groupAt :: "int \<Rightarrow> int list \<Rightarrow> IteratorResult list list \<Rightarrow> IteratorResult list" where
  "groupAt d g P = concat (map (takeWhile (\<lambda>r. rowKey d r = g)) P)"

definition withoutGroup :: "int \<Rightarrow> int list \<Rightarrow> IteratorResult list list \<Rightarrow> IteratorResult list list" where
  "withoutGroup d g P = map (dropWhile (\<lambda>r. rowKey d r = g)) P"

text \<open>The number of groups above the first pending result of the first child.\<close>

definition groupsAbove :: "int \<Rightarrow> IteratorResult list list \<Rightarrow> nat" where
  "groupsAbove d P =
     card {g \<in> allKeys d P. (case headOption (P ! 0) of None \<Rightarrow> True | Some p \<Rightarrow> rowKey d p < g)}"

text \<open>
  The state of a join seen from its children: the peeks and, for every child, the results
  it has not returned yet. It is well formed when the two slices have the same length,
  there is a child, and the pending results of every child are in ascending order.
\<close>

type_synonym children = "IteratorResult option list \<times> IteratorResult list list"

definition pendingOf :: "children \<Rightarrow> IteratorResult list list" where
  "pendingOf c = pending (fst c) (snd c)"

definition wellFormed :: "int \<Rightarrow> children \<Rightarrow> bool" where
  "wellFormed d c \<longleftrightarrow>
     length (fst c) = length (snd c) \<and> snd c \<noteq> [] \<and> (\<forall>xs\<in>set (pendingOf c). ascending d xs)"

definition joinOf :: "int \<Rightarrow> children \<Rightarrow> GroupPredicate option \<Rightarrow> JoinIterator" where
  "joinOf d c f = \<lparr>definitionLevel = d, iters = map returning (snd c), peeks = fst c, pred = f\<rparr>"

text \<open>
  Two children for the examples of the joins and of the union, with results at rows
  1, 2, 2 and at rows 2, 3: \<open>resultAt row sub name\<close> is a result at row number
  \<open>row.sub\<close> with one entry \<open>name\<close>.
\<close>

definition resultAt :: "int32 \<Rightarrow> int32 \<Rightarrow> string \<Rightarrow> IteratorResult" where
  "resultAt row sub name =
     \<lparr>RowNumber = RN row sub (-1) (-1) (-1) (-1) (-1) (-1),
      Entries = [kvEntry name ''v''], OtherEntries = []\<rparr>"

definition childA :: "IteratorResult list" where
  "childA = [resultAt 1 0 ''a'', resultAt 2 0 ''a'', resultAt 2 1 ''a'']"

definition childB :: "IteratorResult list" where
  "childB = [resultAt 2 0 ''b'', resultAt 3 0 ''b'']"

text \<open>
  The state of a left join seen from its children: the required ones, as for a join, and
  the optional ones, of which nothing is asked but one peek for each.
\<close>

definition leftJoinOf :: "int \<Rightarrow> children \<times> children \<Rightarrow> GroupPredicate option \<Rightarrow> LeftJoinIterator" where
  "leftJoinOf d c f =
     \<lparr>lj_definitionLevel = d,
      required = map returning (snd (fst c)), optional = map returning (snd (snd c)),
      peeksRequired = fst (fst c), peeksOptional = fst (snd c), lj_pred = f\<rparr>"

definition wellFormedLeft :: "int \<Rightarrow> children \<times> children \<Rightarrow> bool" where
  "wellFormedLeft d c \<longleftrightarrow> wellFormed d (fst c) \<and> length (fst (snd c)) = length (snd (snd c))"

text \<open>
  The loop of \<open>UnionIterator.Next\<close> in terms of the pending results: child \<open>k\<close> replaces
  the lowest row number when its first pending result is below it at level \<open>d\<close>, and joins
  the lowest children when it is equal to it.
\<close>

definition lowerOf ::
  "int \<Rightarrow> IteratorResult list list \<Rightarrow> RowNumber \<times> nat list \<Rightarrow> nat \<Rightarrow> RowNumber \<times> nat list" where
  "lowerOf d P low k =
     (case headOption (P ! k) of
        None \<Rightarrow> low
      | Some p \<Rightarrow>
          if rowKey d p < keyOf d (fst low) then (RowNumber p, [k])
          else if rowKey d p = keyOf d (fst low) then (fst low, snd low @ [k])
          else low)"

text \<open>\<open>headAt d P g k\<close>: the first pending result of child \<open>k\<close> is of group \<open>g\<close>.\<close>

definition headAt :: "int \<Rightarrow> IteratorResult list list \<Rightarrow> int list \<Rightarrow> nat \<Rightarrow> bool" where
  "headAt d P g k = (case headOption (P ! k) of None \<Rightarrow> False | Some p \<Rightarrow> rowKey d p = g)"

text \<open>
  The state of a union seen from its children, with the lowest children of the last
  pass. \<open>unionGroup d xss g\<close> is the results of group \<open>g\<close> of the children \<open>xss\<close>, child
  after child. The state is well formed for the children \<open>xss0\<close> the union was made of
  when the pending results are in ascending order, none above \<open>MaxRowNumber\<close> at level
  \<open>d\<close>, and every group that is still pending is pending whole.
\<close>

definition unionOf :: "int \<Rightarrow> nat list \<times> children \<Rightarrow> GroupPredicate option \<Rightarrow> UnionIterator" where
  "unionOf d c f =
     \<lparr>u_definitionLevel = d, u_iters = map returning (snd (snd c)), lowestIters = fst c,
      u_peeks = fst (snd c), u_pred = f\<rparr>"

definition unionGroup :: "int \<Rightarrow> IteratorResult list list \<Rightarrow> int list \<Rightarrow> IteratorResult list" where
  "unionGroup d xss g = concat (map (filter (\<lambda>x. rowKey d x = g)) xss)"

definition wellFormedUnion :: "int \<Rightarrow> IteratorResult list list \<Rightarrow> nat list \<times> children \<Rightarrow> bool" where
  "wellFormedUnion d xss0 c \<longleftrightarrow>
     length (fst (snd c)) = length (snd (snd c)) \<and> length (snd (snd c)) = length xss0 \<and>
     (\<forall>xs\<in>set (pendingOf (snd c)). ascending d xs) \<and>
     (\<forall>xs\<in>set (pendingOf (snd c)). \<forall>x\<in>set xs. rowKey d x \<le> keyOf d MaxRowNumber) \<and>
     (\<forall>k<length xss0. \<forall>h\<in>allKeys d (pendingOf (snd c)).
        filter (\<lambda>x. rowKey d x = h) (pendingOf (snd c) ! k) = filter (\<lambda>x. rowKey d x = h) (xss0 ! k))"

section \<open>Proofs\<close>

subsection \<open>Row numbers\<close>


lemma length_rn_list [simp]: "length (rn_list t) = 8"
  by (cases t) simp

lemma rn_of_list_rn_list [simp]: "rn_of_list (rn_list t) = t"
  by (cases t) simp

lemma rn_list_rn_of_list: "length xs = 8 \<Longrightarrow> rn_list (rn_of_list xs) = xs"
  by (auto simp: length_Suc_conv eval_nat_numeral)

lemma CompareLoop_lexcmp:
  "0 \<le> i \<Longrightarrow> d \<le> 7 \<Longrightarrow>
   CompareLoop i d a b =
     Some (lexcmp (take (nat (d + 1 - i)) (drop (nat i) (rn_list a)))
                  (take (nat (d + 1 - i)) (drop (nat i) (rn_list b))))"
proof (induction i d a b rule: CompareLoop.induct)
  case (1 i d a b)
  show ?case
  proof (cases "i \<le> d")
    case False
    then show ?thesis by (simp add: CompareLoop.simps [of i])
  next
    case True
    with 1 have i8: "nat i < 8" by simp
    have n: "nat (d + 1 - i) = Suc (nat (d + 1 - (i + 1)))" using True by simp
    have sn: "Suc (nat i) = nat (i + 1)" using "1.prems" by simp
    have da: "drop (nat i) (rn_list a) = rn_list a ! nat i # drop (nat (i + 1)) (rn_list a)"
      using i8 by (simp add: Cons_nth_drop_Suc sn [symmetric])
    have db: "drop (nat i) (rn_list b) = rn_list b ! nat i # drop (nat (i + 1)) (rn_list b)"
      using i8 by (simp add: Cons_nth_drop_Suc sn [symmetric])
    have at: "rn_at a i = Some (rn_list a ! nat i)" "rn_at b i = Some (rn_list b ! nat i)"
      using i8 "1.prems" by (simp_all add: rn_at_def)
    show ?thesis
    proof (cases "sint (rn_list a ! nat i) < sint (rn_list b ! nat i)")
      case lt: True
      show ?thesis
        by (subst CompareLoop.simps) (simp add: True at lt n da db del: One_nat_def)
    next
      case nlt: False
      show ?thesis
      proof (cases "sint (rn_list b ! nat i) < sint (rn_list a ! nat i)")
        case gt: True
        show ?thesis
          by (subst CompareLoop.simps) (simp add: True at nlt gt n da db)
      next
        case ngt: False
        have "CompareLoop (i + 1) d a b =
           Some (lexcmp (take (nat (d + 1 - (i + 1))) (drop (nat (i + 1)) (rn_list a)))
                  (take (nat (d + 1 - (i + 1))) (drop (nat (i + 1)) (rn_list b))))"
          using "1.IH" [OF True at(1) at(2)] nlt ngt "1.prems" by simp
        then show ?thesis
          by (subst CompareLoop.simps) (simp add: True at nlt ngt n da db)
      qed
    qed
  qed
qed

lemma CompareRowNumbers_cmp_upto:
  "d \<le> 7 \<Longrightarrow> CompareRowNumbers d a b = Some (cmp_upto d a b)"
  using CompareLoop_lexcmp [of 0 d a b] by (simp add: CompareRowNumbers_def cmp_upto_def)



lemma lexcmp_append:
  "length a = length b \<Longrightarrow>
   lexcmp (a @ c) (b @ e) = (if lexcmp a b = 0 then lexcmp c e else lexcmp a b)"
  by (induction a b rule: list_induct2) auto

lemma lexcmp_refl [simp]: "lexcmp a a = 0"
  by (induction a) auto

lemma lexcmp_eq_0: "length a = length b \<Longrightarrow> lexcmp a b = 0 \<longleftrightarrow> a = b"
  by (induction a b rule: list_induct2) (auto split: if_splits intro: signed_word_eqI)

lemma lexcmp_range: "lexcmp a b = -1 \<or> lexcmp a b = 0 \<or> lexcmp a b = 1"
  by (induction a b rule: lexcmp.induct) auto

lemma lexcmp_flip: "lexcmp b a = - lexcmp a b"
  by (induction a b rule: lexcmp.induct) auto

lemma PrecedingLoop_append:
  "PrecedingLoop (length ys) (ys @ zs) = PrecedingLoop (length ys) ys @ zs"
proof (induction ys arbitrary: zs rule: rev_induct)
  case Nil
  then show ?case by simp
next
  case (snoc y ys)
  have a: "PrecedingLoop (length ys) (ys @ y # zs) = PrecedingLoop (length ys) ys @ y # zs"
    using snoc [of "y # zs"] by simp
  have b: "PrecedingLoop (length ys) (ys @ MaxInt32 # zs) = PrecedingLoop (length ys) ys @ MaxInt32 # zs"
    using snoc [of "MaxInt32 # zs"] by simp
  have c: "PrecedingLoop (length ys) (ys @ [y]) = PrecedingLoop (length ys) ys @ [y]"
    using snoc [of "[y]"] by simp
  have d: "PrecedingLoop (length ys) (ys @ [MaxInt32]) = PrecedingLoop (length ys) ys @ [MaxInt32]"
    using snoc [of "[MaxInt32]"] by simp
  show ?case
  proof (cases "y = -1")
    case True
    then show ?thesis using a c by simp
  next
    case False
    then show ?thesis using b d by simp
  qed
qed

lemma prec_Nil [simp]: "prec [] = []"
  by (simp add: prec_def)

lemma prec_snoc:
  "prec (ys @ [x]) =
     (if x = -1 then prec ys @ [x] else if x = 0 then prec ys @ [MaxInt32] else ys @ [x - 1])"
proof (cases "x = -1")
  case True
  then show ?thesis using PrecedingLoop_append [of ys "[x]"] by (simp add: prec_def)
next
  case False
  then show ?thesis using PrecedingLoop_append [of ys "[MaxInt32]"] by (simp add: prec_def)
qed

lemma length_prec [simp]: "length (prec xs) = length xs"
  by (induction xs rule: rev_induct) (auto simp: prec_snoc)

lemma sint_dec: "sint (x - 1) = sint x - 1" if "1 \<le> sint (x :: int32)"
proof -
  have "sint (x - 1) = signed_take_bit 31 (sint x - 1)"
    by (simp add: sint_word_ariths)
  moreover have "sint x < 2 ^ 31" using sint_lt [of x] by simp
  ultimately show ?thesis using that by (simp add: signed_take_bit_int_eq_self)
qed



lemma sint_m1_iff: "sint (x :: int32) = -1 \<longleftrightarrow> x = -1"
proof
  assume "sint x = -1"
  then have "sint x = sint (-1 :: int32)" by simp
  then show "x = -1" by (rule signed_word_eqI)
qed simp

lemma sint_0_iff: "sint (x :: int32) = 0 \<longleftrightarrow> x = 0"
proof
  assume "sint x = 0"
  then have "sint x = sint (0 :: int32)" by simp
  then show "x = 0" by (rule signed_word_eqI)
qed simp

lemma sint_MaxInt32 [simp]: "sint MaxInt32 = 2147483647"
  by (simp add: MaxInt32_def)

lemma sint_le_MaxInt32: "sint (x :: int32) \<le> 2147483647"
  using sint_lt [of x] by simp

lemma prec_less:
  "\<forall>x\<in>set xs. -1 \<le> sint x \<Longrightarrow> \<exists>x\<in>set xs. 1 \<le> sint x \<Longrightarrow> lexcmp (prec xs) xs = -1"
proof (induction xs rule: rev_induct)
  case Nil
  then show ?case by simp
next
  case (snoc x xs)
  show ?case
  proof (cases "x = -1 \<or> x = 0")
    case True
    then have "\<exists>y\<in>set xs. 1 \<le> sint y" using snoc.prems(2) by auto
    then have "lexcmp (prec xs) xs = -1" using snoc by simp
    then show ?thesis using True by (auto simp: prec_snoc lexcmp_append)
  next
    case False
    then have "1 \<le> sint x" using snoc.prems(1) sint_m1_iff [of x] sint_0_iff [of x] by fastforce
    then show ?thesis using False by (simp add: prec_snoc lexcmp_append sint_dec)
  qed
qed

lemma prec_gap:
  "list_all2 same_shape xs zs \<Longrightarrow> \<forall>x\<in>set xs. -1 \<le> sint x \<Longrightarrow>
   \<not> (lexcmp (prec xs) zs = -1 \<and> lexcmp zs xs = -1)"
proof (induction xs arbitrary: zs rule: rev_induct)
  case Nil
  then show ?case by simp
next
  case (snoc x xs)
  from snoc.prems(1) obtain ws z where zs: "zs = ws @ [z]" and ws: "list_all2 same_shape xs ws"
    and xz: "same_shape x z"
    by (auto simp: list_all2_append1 list_all2_Cons1)
  have len: "length xs = length ws" using ws by (rule list_all2_lengthD)
  have IH: "\<not> (lexcmp (prec xs) ws = -1 \<and> lexcmp ws xs = -1)"
    using snoc.IH [OF ws] snoc.prems(2) by simp
  have z1: "-1 \<le> sint z" using xz by (simp add: same_shape_def)
  have r1: "lexcmp (prec xs) ws = -1 \<or> lexcmp (prec xs) ws = 0 \<or> lexcmp (prec xs) ws = 1"
    by (rule lexcmp_range)
  have r2: "lexcmp ws xs = -1 \<or> lexcmp ws xs = 0 \<or> lexcmp ws xs = 1"
    by (rule lexcmp_range)
  show ?case
  proof (cases "x = -1")
    case True
    then have "z = -1" using xz by (simp add: same_shape_def)
    then show ?thesis using True IH len r1 r2 by (auto simp: zs prec_snoc lexcmp_append)
  next
    case nm1: False
    then have z0: "0 \<le> sint z" using xz z1 sint_m1_iff [of z] by (auto simp: same_shape_def)
    show ?thesis
    proof (cases "x = 0")
      case True
      then show ?thesis using IH len r1 r2 z0 sint_le_MaxInt32 [of z]
        by (auto simp: zs prec_snoc lexcmp_append split: if_splits)
    next
      case False
      then have x1: "1 \<le> sint x" using nm1 snoc.prems(2) sint_m1_iff [of x] sint_0_iff [of x] by fastforce
      have f: "lexcmp xs ws = - lexcmp ws xs" by (rule lexcmp_flip)
      show ?thesis using False nm1 len r2 f sint_dec [OF x1]
        by (auto simp: zs prec_snoc lexcmp_append split: if_splits)
    qed
  qed
qed

lemma prec_same_shape:
  "\<forall>x\<in>set xs. -1 \<le> sint x \<Longrightarrow> list_all2 same_shape xs (prec xs)"
proof (induction xs rule: rev_induct)
  case Nil
  then show ?case by simp
next
  case (snoc x xs)
  have refl: "list_all2 same_shape xs xs"
    using snoc.prems by (auto simp: list_all2_same same_shape_def)
  have ih: "list_all2 same_shape xs (prec xs)" using snoc by simp
  show ?case
  proof (cases "x = -1 \<or> x = 0")
    case True
    then have "same_shape x (if x = -1 then x else MaxInt32)"
      by (auto simp: same_shape_def MaxInt32_def)
    then have "list_all2 same_shape (xs @ [x]) (prec xs @ [if x = -1 then x else MaxInt32])"
      using ih by (intro list_all2_appendI) simp_all
    then show ?thesis using True by (auto simp: prec_snoc)
  next
    case False
    then have x1: "1 \<le> sint x" using snoc.prems sint_m1_iff [of x] sint_0_iff [of x] by fastforce
    have "sint (x - 1) \<noteq> -1" using sint_dec [OF x1] x1 by simp
    then have "x - 1 \<noteq> -1" using sint_m1_iff [of "x - 1"] by simp
    then have "same_shape x (x - 1)" using False sint_dec [OF x1] x1
      by (simp add: same_shape_def)
    then have "list_all2 same_shape (xs @ [x]) (xs @ [x - 1])"
      using refl by (intro list_all2_appendI) simp_all
    then show ?thesis using False by (simp add: prec_snoc)
  qed
qed


lemma rn_list_Preceding: "rn_list (Preceding t) = prec (rn_list t)"
  by (simp add: Preceding_def prec_def rn_list_rn_of_list [symmetric] del: rn_of_list_rn_list)
     (metis length_prec length_rn_list prec_def rn_list_rn_of_list)

lemma cmp_upto_7: "cmp_upto 7 a b = lexcmp (rn_list a) (rn_list b)"
  by (simp add: cmp_upto_def)

text \<open>
  C5, as amended. For every row number \<open>r\<close> whose positions are all at least \<open>-1\<close>,
  one of them at least 1, \<open>Preceding r\<close> is below \<open>r\<close> in the full comparison, is
  defined at the same levels as \<open>r\<close>, and no row number \<open>r'\<close> defined at the same
  levels as \<open>r\<close> lies strictly between \<open>Preceding r\<close> and \<open>r\<close>: \<open>Preceding\<close> returns
  the largest row number of the same shape below its argument.
\<close>

theorem Preceding_largest_same_levels:
  assumes "positions_from_minus_one r" and "some_position_positive r" and "same_levels r r'"
  shows "CompareRowNumbers 7 (Preceding r) r = Some (-1) \<and>
         same_levels r (Preceding r) \<and>
         \<not> (CompareRowNumbers 7 (Preceding r) r' = Some (-1) \<and>
            CompareRowNumbers 7 r' r = Some (-1))"
proof -
  have all: "\<forall>x\<in>set (rn_list r). -1 \<le> sint x"
    using assms(1) by (simp add: positions_from_minus_one_def list_all_iff)
  have ex: "\<exists>x\<in>set (rn_list r). 1 \<le> sint x"
    using assms(2) by (simp add: some_position_positive_def list_ex_iff)
  have "lexcmp (prec (rn_list r)) (rn_list r) = -1"
    using all ex by (rule prec_less)
  moreover have "list_all2 same_shape (rn_list r) (prec (rn_list r))"
    using all by (rule prec_same_shape)
  moreover have "\<not> (lexcmp (prec (rn_list r)) (rn_list r') = -1 \<and>
                    lexcmp (rn_list r') (rn_list r) = -1)"
    using assms(3) all unfolding same_levels_def by (rule prec_gap)
  ultimately show ?thesis
    by (simp add: CompareRowNumbers_cmp_upto cmp_upto_7 rn_list_Preceding same_levels_def)
qed

theorem Preceding_largest_same_levels_witness:
  "positions_from_minus_one (RN 1000 0 0 (-1) (-1) (-1) (-1) (-1)) \<and>
   some_position_positive (RN 1000 0 0 (-1) (-1) (-1) (-1) (-1)) \<and>
   same_levels (RN 1000 0 0 (-1) (-1) (-1) (-1) (-1)) (RN 999 7 7 (-1) (-1) (-1) (-1) (-1)) \<and>
   CompareRowNumbers 7 (Preceding (RN 1000 0 0 (-1) (-1) (-1) (-1) (-1)))
     (RN 1000 0 0 (-1) (-1) (-1) (-1) (-1)) = Some (-1) \<and>
   Preceding (RN 1000 0 0 (-1) (-1) (-1) (-1) (-1)) =
     RN 999 MaxInt32 MaxInt32 (-1) (-1) (-1) (-1) (-1) \<and>
   \<not> (CompareRowNumbers 7 (Preceding (RN 1000 0 0 (-1) (-1) (-1) (-1) (-1)))
        (RN 999 7 7 (-1) (-1) (-1) (-1) (-1)) = Some (-1) \<and>
      CompareRowNumbers 7 (RN 999 7 7 (-1) (-1) (-1) (-1) (-1))
        (RN 1000 0 0 (-1) (-1) (-1) (-1) (-1)) = Some (-1))"
proof -
  have h1: "positions_from_minus_one (RN 1000 0 0 (-1) (-1) (-1) (-1) (-1))"
    by (simp add: positions_from_minus_one_def)
  have h2: "some_position_positive (RN 1000 0 0 (-1) (-1) (-1) (-1) (-1))"
    by (simp add: some_position_positive_def)
  have h3: "same_levels (RN 1000 0 0 (-1) (-1) (-1) (-1) (-1)) (RN 999 7 7 (-1) (-1) (-1) (-1) (-1))"
    by (simp add: same_levels_def same_shape_def)
  have p: "Preceding (RN 1000 0 0 (-1) (-1) (-1) (-1) (-1)) =
     RN 999 MaxInt32 MaxInt32 (-1) (-1) (-1) (-1) (-1)"
    by code_simp
  show ?thesis
    using Preceding_largest_same_levels [OF h1 h2 h3] h1 h2 h3 p by simp
qed

text \<open>
  The claim as stated fails at the valid row number \<open>1000.-1...\<close> (the example of the
  source's comment): its predecessor is \<open>999.-1...\<close>, and \<open>999.0.-1...\<close> lies strictly
  between the two in the full comparison.
\<close>

theorem Preceding_not_largest_counterexample:
  "Valid (RN 1000 (-1) (-1) (-1) (-1) (-1) (-1) (-1)) \<and>
   Preceding (RN 1000 (-1) (-1) (-1) (-1) (-1) (-1) (-1)) = RN 999 (-1) (-1) (-1) (-1) (-1) (-1) (-1) \<and>
   CompareRowNumbers 7 (Preceding (RN 1000 (-1) (-1) (-1) (-1) (-1) (-1) (-1)))
     (RN 999 0 (-1) (-1) (-1) (-1) (-1) (-1)) = Some (-1) \<and>
   CompareRowNumbers 7 (RN 999 0 (-1) (-1) (-1) (-1) (-1) (-1))
     (RN 1000 (-1) (-1) (-1) (-1) (-1) (-1) (-1)) = Some (-1)"
  by code_simp

text \<open>
  At the valid row number \<open>0.-1...\<close> the loop turns position 0 into \<open>MaxInt32\<close> and
  runs out of positions: the result is above the argument.
\<close>

lemma Preceding_of_row_zero:
  "Valid (RN 0 (-1) (-1) (-1) (-1) (-1) (-1) (-1)) \<and>
   Preceding (RN 0 (-1) (-1) (-1) (-1) (-1) (-1) (-1)) = RN MaxInt32 (-1) (-1) (-1) (-1) (-1) (-1) (-1) \<and>
   CompareRowNumbers 7 (Preceding (RN 0 (-1) (-1) (-1) (-1) (-1) (-1) (-1)))
     (RN 0 (-1) (-1) (-1) (-1) (-1) (-1) (-1)) = Some 1"
  by code_simp

subsection \<open>KeyValueGroupPredicate\<close>

lemma ColumnsAppend_keys_values:
  "ColumnsAppend [''keys'', ''values''] e [ks, vs] =
     [if fst e = ''keys'' then ks @ [snd e] else ks,
      if fst e = ''values'' then vs @ [snd e] else vs]"
  by simp

lemma foldl_Columns_keys_values:
  "foldl (\<lambda>buffer e. ColumnsAppend [''keys'', ''values''] e buffer) [ks, vs] es =
     [ks @ map snd (filter (\<lambda>e. fst e = ''keys'') es),
      vs @ map snd (filter (\<lambda>e. fst e = ''values'') es)]"
  by (induction es arbitrary: ks vs) simp_all

lemma Columns_keys_values:
  "Columns grp [''keys'', ''values''] =
     [map snd (filter (\<lambda>e. fst e = ''keys'') (Entries grp)),
      map snd (filter (\<lambda>e. fst e = ''values'') (Entries grp))]"
  using foldl_Columns_keys_values [of "[]" "[]" "Entries grp"]
  by (simp add: Columns_def numeral_2_eq_2)

lemma KeepGroupFound_iff:
  "KeepGroupFound k v ks vs \<longleftrightarrow>
     (\<exists>j. j < length ks \<and> j < length vs \<and> ByteArray (ks ! j) = k \<and> ByteArray (vs ! j) = v)"
proof (induction k v ks vs rule: KeepGroupFound.induct)
  case (1 k v key ks val vs)
  show ?case
  proof (cases "k = ByteArray key \<and> v = ByteArray val")
    case True
    then show ?thesis by (auto intro: exI [of _ 0])
  next
    case False
    have "(\<exists>j. j < length (key # ks) \<and> j < length (val # vs) \<and>
               ByteArray ((key # ks) ! j) = k \<and> ByteArray ((val # vs) ! j) = v) \<longleftrightarrow>
          (\<exists>j. j < length ks \<and> j < length vs \<and> ByteArray (ks ! j) = k \<and> ByteArray (vs ! j) = v)"
      (is "?L \<longleftrightarrow> ?R")
    proof
      assume ?L
      then obtain j where j: "j < length (key # ks)" "j < length (val # vs)"
        "ByteArray ((key # ks) ! j) = k" "ByteArray ((val # vs) ! j) = v" by blast
      with False obtain j' where "j = Suc j'" by (cases j) auto
      with j show ?R by auto
    next
      assume ?R
      then obtain j where "j < length ks" "j < length vs" "ByteArray (ks ! j) = k"
        "ByteArray (vs ! j) = v" by blast
      then show ?L by (intro exI [of _ "Suc j"]) simp
    qed
    moreover have "KeepGroupFound k v (key # ks) (val # vs) = KeepGroupFound k v ks vs"
      using False by auto
    ultimately show ?thesis using 1 False by blast
  qed
qed simp_all

lemma KeepGroupLoop_iff:
  "length akeys = length avals \<Longrightarrow>
   KeepGroupLoop akeys avals ks vs =
     Some (\<forall>i<length akeys. KeepGroupFound (akeys ! i) (avals ! i) ks vs)"
proof (induction akeys avals rule: list_induct2)
  case Nil
  then show ?case by simp
next
  case (Cons k akeys v avals)
  show ?case
  proof (cases "KeepGroupFound k v ks vs")
    case True
    then show ?thesis using Cons by (auto simp: less_Suc_eq_0_disj)
  next
    case False
    then show ?thesis by auto
  qed
qed

text \<open>
  C6, as amended. For a predicate built from \<open>n\<close> keys and \<open>n\<close> values, \<open>KeepGroup\<close>
  returns true if and only if the group's \<open>keys\<close> column has at least \<open>n\<close> values, has
  as many values as its \<open>values\<close> column, and for every \<open>i\<close> some index \<open>j\<close> has the
  \<open>keys\<close> column equal to \<open>k\<^sub>i\<close> and the \<open>values\<close> column equal to \<open>v\<^sub>i\<close>, byte for
  byte. The two columns are the values of the entries with that key, in order.
\<close>

theorem KeepGroup_iff:
  assumes "length ks = length vs"
  shows "KeepGroup (NewKeyValueGroupPredicate ks vs) grp =
     Some (length ks \<le> length (Columns grp [''keys'', ''values''] ! 0) \<and>
           length (Columns grp [''keys'', ''values''] ! 0) =
             length (Columns grp [''keys'', ''values''] ! 1) \<and>
           (\<forall>i<length ks. \<exists>j<length (Columns grp [''keys'', ''values''] ! 0).
               ByteArray (Columns grp [''keys'', ''values''] ! 0 ! j) = ks ! i \<and>
               ByteArray (Columns grp [''keys'', ''values''] ! 1 ! j) = vs ! i)) \<and>
     Columns grp [''keys'', ''values''] =
       [map snd (filter (\<lambda>e. fst e = ''keys'') (Entries grp)),
        map snd (filter (\<lambda>e. fst e = ''values'') (Entries grp))]"
proof -
  let ?K = "Columns grp [''keys'', ''values''] ! 0"
  let ?V = "Columns grp [''keys'', ''values''] ! 1"
  show ?thesis
  proof (cases "length ?K < length ks \<or> length ?K \<noteq> length ?V")
    case True
    then show ?thesis
      by (auto simp: KeepGroup_def NewKeyValueGroupPredicate_def Let_def Columns_keys_values)
  next
    case False
    then have eq: "length ?K = length ?V" by simp
    have "KeepGroup (NewKeyValueGroupPredicate ks vs) grp = KeepGroupLoop ks vs ?K ?V"
      using False by (simp add: KeepGroup_def NewKeyValueGroupPredicate_def Let_def)
    also have "\<dots> = Some (\<forall>i<length ks. KeepGroupFound (ks ! i) (vs ! i) ?K ?V)"
      using assms by (rule KeepGroupLoop_iff)
    finally show ?thesis
      using False eq by (auto simp: KeepGroupFound_iff Columns_keys_values)
  qed
qed

theorem KeepGroup_iff_witness:
  "length [''a''] = length [''b''] \<and>
   KeepGroup (NewKeyValueGroupPredicate [''a''] [''b''])
     (groupOf [kvEntry ''keys'' ''x'', kvEntry ''values'' ''y'',
               kvEntry ''keys'' ''a'', kvEntry ''values'' ''b'']) = Some True"
proof -
  let ?G = "groupOf [kvEntry ''keys'' ''x'', kvEntry ''values'' ''y'',
               kvEntry ''keys'' ''a'', kvEntry ''values'' ''b'']"
  have h: "length [''a''] = length [''b'']" by simp
  have c: "Columns ?G [''keys'', ''values''] =
     [[snd (kvEntry ''keys'' ''x''), snd (kvEntry ''keys'' ''a'')],
      [snd (kvEntry ''values'' ''y''), snd (kvEntry ''values'' ''b'')]]"
    by (simp add: Columns_keys_values groupOf_def kvEntry_def)
  note th = KeepGroup_iff [OF h, of ?G, unfolded c]
  show ?thesis using th by (simp add: kvEntry_def Ex_less_Suc)
qed

text \<open>
  The claim as stated fails where the guard of \<open>KeepGroup\<close> applies: the predicate asks
  for the pair \<open>(a, b)\<close>, the group has it at index 0, and \<open>KeepGroup\<close> returns false
  because the \<open>keys\<close> column has two values and the \<open>values\<close> column one.
\<close>

theorem KeepGroup_guard_counterexample:
  "KeepGroup (NewKeyValueGroupPredicate [''a''] [''b''])
     (groupOf [kvEntry ''keys'' ''a'', kvEntry ''values'' ''b'', kvEntry ''keys'' ''c'']) = Some False \<and>
   ByteArray (Columns (groupOf [kvEntry ''keys'' ''a'', kvEntry ''values'' ''b'', kvEntry ''keys'' ''c''])
      [''keys'', ''values''] ! 0 ! 0) = [''a''] ! 0 \<and>
   ByteArray (Columns (groupOf [kvEntry ''keys'' ''a'', kvEntry ''values'' ''b'', kvEntry ''keys'' ''c''])
      [''keys'', ''values''] ! 1 ! 0) = [''b''] ! 0"
  by code_simp

text \<open>
  The other half of the guard: a predicate that asks for the same pair twice rejects a
  group that has the pair once.
\<close>

lemma KeepGroup_duplicate_pair:
  "KeepGroup (NewKeyValueGroupPredicate [''a'', ''a''] [''b'', ''b''])
     (groupOf [kvEntry ''keys'' ''a'', kvEntry ''values'' ''b'']) = Some False"
  by code_simp

subsection \<open>The bounds of the row groups\<close>

lemma rowGroupBounds_length:
  "length (fst (rowGroupBounds rn rowGroups)) = length rowGroups \<and>
   length (snd (rowGroupBounds rn rowGroups)) = length rowGroups"
  by (induction rowGroups arbitrary: rn) (simp_all add: Let_def)

lemma rowGroupBounds_first:
  "rowGroups \<noteq> [] \<Longrightarrow> fst (rowGroupBounds rn rowGroups) ! 0 = rn"
  by (cases rowGroups) (simp_all add: Let_def)

lemma rowGroupBounds_max:
  "i < length rowGroups \<Longrightarrow>
   snd (rowGroupBounds rn rowGroups) ! i =
     Skip (NumRows (rowGroups ! i) + 1) (fst (rowGroupBounds rn rowGroups) ! i)"
proof (induction rowGroups arbitrary: rn i)
  case Nil
  then show ?case by simp
next
  case (Cons rg rest)
  then show ?case by (cases i) (simp_all add: Let_def)
qed

lemma rowGroupBounds_next:
  "Suc i < length rowGroups \<Longrightarrow>
   fst (rowGroupBounds rn rowGroups) ! Suc i =
     Skip (NumRows (rowGroups ! i)) (fst (rowGroupBounds rn rowGroups) ! i)"
proof (induction rowGroups arbitrary: rn i)
  case Nil
  then show ?case by simp
next
  case (Cons rg rest)
  show ?case
  proof (cases i)
    case 0
    then show ?thesis using Cons.prems
      by (simp add: Let_def rowGroupBounds_first)
  next
    case (Suc k)
    then show ?thesis using Cons by (simp add: Let_def)
  qed
qed

lemma applyOpt_bounds:
  "rgsMin (applyOpt it opt) = rgsMin it \<and> rgsMax (applyOpt it opt) = rgsMax it"
  by (cases opt) simp_all

lemma foldl_applyOpt_bounds:
  "rgsMin (foldl applyOpt it opts) = rgsMin it \<and> rgsMax (foldl applyOpt it opts) = rgsMax it"
  by (induction opts arbitrary: it) (simp_all add: applyOpt_bounds)

lemma NewSyncIterator_rgs:
  "rgsMin (NewSyncIterator rowGroups col opts) = fst (rowGroupBounds EmptyRowNumber rowGroups) \<and>
   rgsMax (NewSyncIterator rowGroups col opts) = snd (rowGroupBounds EmptyRowNumber rowGroups)"
  by (simp add: NewSyncIterator_def Let_def foldl_applyOpt_bounds)

lemma position0_Skip: "position0 (Skip n t) = position0 t + ucast n"
  by (cases t) simp

lemma ucast_plus_1: "(ucast (n + 1 :: int64) :: int32) = ucast n + 1"
proof -
  have d: "is_down (ucast :: int64 \<Rightarrow> int32)" by (simp add: is_down)
  have "n + 1 = word_of_int (uint n + 1)" by simp
  then have "(ucast (n + 1) :: int32) = ucast (word_of_int (uint n + 1) :: int64)" by simp
  also have "\<dots> = word_of_int (uint n + 1)" using d by (rule ucast_down_wi)
  also have "\<dots> = word_of_int (uint n) + 1" by simp
  also have "(word_of_int (uint n) :: int32) = ucast (word_of_int (uint n) :: int64)"
    using ucast_down_wi [OF d, of "uint n"] by simp
  finally show ?thesis by simp
qed

text \<open>
  C7, as amended. For every list of row groups, column and options, the bounds of
  \<open>NewSyncIterator\<close> are one pair per row group; the first lower bound is the empty row
  number (position 0 is \<open>-1\<close>, the cursor before the first row); the upper bound of a
  group is its lower bound skipped by \<open>NumRows + 1\<close>, so at position 0 it is the lower
  bound plus \<open>NumRows\<close> plus one (in 32-bit arithmetic); and the lower bound of the next
  group is the lower bound skipped by \<open>NumRows\<close>, one below the upper bound.
\<close>

theorem NewSyncIterator_bounds:
  assumes "i < length rowGroups"
  shows "length (rgsMin (NewSyncIterator rowGroups col opts)) = length rowGroups \<and>
         length (rgsMax (NewSyncIterator rowGroups col opts)) = length rowGroups \<and>
         rgsMin (NewSyncIterator rowGroups col opts) ! 0 = EmptyRowNumber \<and>
         rgsMax (NewSyncIterator rowGroups col opts) ! i =
           Skip (NumRows (rowGroups ! i) + 1) (rgsMin (NewSyncIterator rowGroups col opts) ! i) \<and>
         position0 (rgsMax (NewSyncIterator rowGroups col opts) ! i) =
           position0 (rgsMin (NewSyncIterator rowGroups col opts) ! i) +
             ucast (NumRows (rowGroups ! i)) + 1 \<and>
         (Suc i < length rowGroups \<longrightarrow>
            rgsMin (NewSyncIterator rowGroups col opts) ! Suc i =
              Skip (NumRows (rowGroups ! i)) (rgsMin (NewSyncIterator rowGroups col opts) ! i) \<and>
            position0 (rgsMin (NewSyncIterator rowGroups col opts) ! Suc i) =
              position0 (rgsMax (NewSyncIterator rowGroups col opts) ! i) - 1)"
proof -
  have ne: "rowGroups \<noteq> []" using assms by auto
  have mx: "snd (rowGroupBounds EmptyRowNumber rowGroups) ! i =
     Skip (NumRows (rowGroups ! i) + 1) (fst (rowGroupBounds EmptyRowNumber rowGroups) ! i)"
    using assms by (rule rowGroupBounds_max)
  have p: "position0 (snd (rowGroupBounds EmptyRowNumber rowGroups) ! i) =
     position0 (fst (rowGroupBounds EmptyRowNumber rowGroups) ! i) +
       ucast (NumRows (rowGroups ! i)) + 1"
    by (simp add: mx position0_Skip ucast_plus_1)
  have nx: "Suc i < length rowGroups \<Longrightarrow>
     fst (rowGroupBounds EmptyRowNumber rowGroups) ! Suc i =
       Skip (NumRows (rowGroups ! i)) (fst (rowGroupBounds EmptyRowNumber rowGroups) ! i)"
    by (rule rowGroupBounds_next)
  show ?thesis
    using rowGroupBounds_length [of EmptyRowNumber rowGroups]
      rowGroupBounds_first [OF ne, of EmptyRowNumber] mx p nx
    by (simp add: NewSyncIterator_rgs position0_Skip)
qed

theorem NewSyncIterator_bounds_witness:
  "(0::nat) < length [rowGroupOfRows 3, rowGroupOfRows 4] \<and>
   Suc 0 < length [rowGroupOfRows 3, rowGroupOfRows 4] \<and>
   rgsMin (NewSyncIterator [rowGroupOfRows 3, rowGroupOfRows 4] 0 []) ! 0 = EmptyRowNumber \<and>
   rgsMax (NewSyncIterator [rowGroupOfRows 3, rowGroupOfRows 4] 0 []) ! 0 =
     RN 3 (-1) (-1) (-1) (-1) (-1) (-1) (-1) \<and>
   rgsMin (NewSyncIterator [rowGroupOfRows 3, rowGroupOfRows 4] 0 []) ! Suc 0 =
     RN 2 (-1) (-1) (-1) (-1) (-1) (-1) (-1)"
proof -
  have h: "(0::nat) < length [rowGroupOfRows 3, rowGroupOfRows 4]" by simp
  show ?thesis
    using NewSyncIterator_bounds [OF h, of 0 "[]"]
    by (simp add: rowGroupOfRows_def EmptyRowNumber_def)
qed

text \<open>
  The claim as stated fails for one row group of three rows: the lower bound has
  position 0 at \<open>-1\<close>, the upper bound at 3, which is not \<open>-1 + 3\<close>.
\<close>

theorem NewSyncIterator_max_counterexample:
  "rgsMin (NewSyncIterator [rowGroupOfRows 3] 0 []) ! 0 = RN (-1) (-1) (-1) (-1) (-1) (-1) (-1) (-1) \<and>
   rgsMax (NewSyncIterator [rowGroupOfRows 3] 0 []) ! 0 = RN 3 (-1) (-1) (-1) (-1) (-1) (-1) (-1) \<and>
   NumRows (rowGroupOfRows 3) = 3 \<and>
   sint (position0 (rgsMax (NewSyncIterator [rowGroupOfRows 3] 0 []) ! 0)) \<noteq>
     sint (position0 (rgsMin (NewSyncIterator [rowGroupOfRows 3] 0 []) ! 0)) + 3"
  by (simp add: NewSyncIterator_def rowGroupOfRows_def EmptyRowNumber_def Let_def)

subsection \<open>Discard accounting\<close>

lemma discard_tallies:
  "map (\<lambda>tc. (tally [0, 2, 1] 3 (pushErrorByTrace tc), replicationFactor tc,
              expectedLiveTracesDiscardedCount tc, expectedTraceTooLargeDiscardedCount tc))
     discardCases =
   [(([2, 2, 2], [NO_ERROR, NO_ERROR, NO_ERROR]), 3, 0, 0),
    (([3, 3, 3], [NO_ERROR, NO_ERROR, NO_ERROR]), 3, 0, 0),
    (([1, 2, 2], [MAX_LIVE_TRACES, NO_ERROR, NO_ERROR]), 3, 5, 0),
    (([2, 3, 3], [MAX_LIVE_TRACES, NO_ERROR, NO_ERROR]), 3, 0, 0),
    (([2, 2, 1], [NO_ERROR, NO_ERROR, TRACE_TOO_LARGE]), 3, 0, 10),
    (([3, 3, 2], [NO_ERROR, NO_ERROR, TRACE_TOO_LARGE]), 3, 0, 0),
    (([0, 2, 2], [MAX_LIVE_TRACES, NO_ERROR, NO_ERROR]), 3, 5, 0),
    (([3, 3, 1], [NO_ERROR, NO_ERROR, TRACE_TOO_LARGE]), 3, 0, 10),
    (([3, 3, 0], [NO_ERROR, NO_ERROR, TRACE_TOO_LARGE]), 3, 0, 10),
    (([3, 3, 0], [NO_ERROR, NO_ERROR, TRACE_TOO_LARGE]), 3, 0, 10),
    (([3, 1, 1], [NO_ERROR, TRACE_TOO_LARGE, MAX_LIVE_TRACES]), 3, 10, 15),
    (([3, 3, 2], [NO_ERROR, NO_ERROR, TRACE_TOO_LARGE]), 5, 0, 10),
    (([4, 4, 3], [NO_ERROR, NO_ERROR, TRACE_TOO_LARGE]), 5, 0, 0),
    (([1, 1, 0], [NO_ERROR, NO_ERROR, TRACE_TOO_LARGE]), 1, 0, 10)]"
  by code_simp

lemma discardCasePasses_tally:
  "discardCasePasses quorum tc \<longleftrightarrow>
     (case (tally [0, 2, 1] 3 (pushErrorByTrace tc), replicationFactor tc,
            expectedLiveTracesDiscardedCount tc, expectedTraceTooLargeDiscardedCount tc) of
        ((ns, es), r, l, t) \<Rightarrow>
          (case countDiscardedSpans quorum ns es [5, 15, 10] r of (a, b, u) \<Rightarrow> (a, b)) = (l, t))"
  by (simp add: discardCasePasses_def runDiscardCase_def Let_def split: prod.splits)

text \<open>
  C8, as amended. Whatever the quorum, a trace whose successes reach the quorum for the
  replication factor is accepted and one whose successes do not is discarded, its span
  count added to the counter of its last error; and every row of the table of
  \<open>TestDiscardCountReplicationFactor\<close> gives the two counts the test expects if and only
  if the quorum is 2 for the replication factor 3 and 3 for the replication factor 5,
  and at least 1 for the replication factor 1: the three replication factors of the
  table.
\<close>

theorem discard_quorum_of_test_table:
  "(list_all (discardCasePasses quorum) discardCases \<longleftrightarrow>
      0 < quorum 1 \<and> quorum 3 = 2 \<and> quorum 5 = 3) \<and>
   countDiscardedSpans quorum [n] [e] [c] R =
     (if n \<ge> quorum R then (0, 0, 0)
      else (if e = MAX_LIVE_TRACES then c else 0,
            if e = TRACE_TOO_LARGE then c else 0,
            if e = UNKNOWN_ERROR then c else 0))"
proof -
  let ?f = "\<lambda>tc. (tally [0, 2, 1] 3 (pushErrorByTrace tc), replicationFactor tc,
              expectedLiveTracesDiscardedCount tc, expectedTraceTooLargeDiscardedCount tc)"
  let ?P = "\<lambda>x. case x of ((ns, es), r, l, t) \<Rightarrow>
          (case countDiscardedSpans quorum ns es [5, 15, 10] r of (a, b, u) \<Rightarrow> (a, b)) = (l, t)"
  have "list_all (discardCasePasses quorum) discardCases = list_all ?P (map ?f discardCases)"
    by (simp add: list_all_iff discardCasePasses_tally)
  also have "\<dots> \<longleftrightarrow> 0 < quorum 1 \<and> quorum 3 = 2 \<and> quorum 5 = 3"
    unfolding discard_tallies by (simp add: accepted_def)
  finally have table: "list_all (discardCasePasses quorum) discardCases \<longleftrightarrow>
      0 < quorum 1 \<and> quorum 3 = 2 \<and> quorum 5 = 3" .
  have one: "countDiscardedSpans quorum [n] [e] [c] R =
     (if n \<ge> quorum R then (0, 0, 0)
      else (if e = MAX_LIVE_TRACES then c else 0,
            if e = TRACE_TOO_LARGE then c else 0,
            if e = UNKNOWN_ERROR then c else 0))"
    by (simp add: accepted_def)
  show ?thesis using table one by (rule conjI)
qed

text \<open>
  The claim as stated fails on the fourth row of the source's table (``one mlt error,
  max responses''): with replication factor 3 the first trace has two successes and the
  last error \<open>MAX_LIVE_TRACES\<close>; with the quorum \<open>\<lceil>3/2\<rceil> + 1 = 3\<close> it is discarded and
  its five spans are counted, where the test expects no discarded span.
\<close>

theorem discard_quorum_spec_counterexample:
  "quorumSpec 3 = 3 \<and>
   replicationFactor (discardCases ! 3) = 3 \<and>
   fst (tally [0, 2, 1] 3 (pushErrorByTrace (discardCases ! 3))) ! 0 = 2 \<and>
   snd (tally [0, 2, 1] 3 (pushErrorByTrace (discardCases ! 3))) ! 0 = MAX_LIVE_TRACES \<and>
   \<not> accepted quorumSpec 3 2 \<and>
   runDiscardCase quorumSpec (discardCases ! 3) = (5, 0) \<and>
   expectedLiveTracesDiscardedCount (discardCases ! 3) = 0 \<and>
   \<not> discardCasePasses quorumSpec (discardCases ! 3)"
  by code_simp

subsection \<open>NewLeftJoinIterator\<close>

text \<open>
  C9. \<open>NewLeftJoinIterator\<close> returns an error, and no iterator, exactly when the list of
  required iterators is empty, for every definition level, list of optional iterators
  and predicate; otherwise it returns the iterator over the given lists, with every peek
  empty.
\<close>

theorem NewLeftJoinIterator_error_iff:
  "(isl (NewLeftJoinIterator d req opt p) \<longleftrightarrow> req = []) \<and>
   (case NewLeftJoinIterator d req opt p of
      Inl e \<Rightarrow> req = [] \<and> e = Failure ''left join iterator requires at least one required iterator''
    | Inr j \<Rightarrow> req \<noteq> [] \<and> lj_definitionLevel j = d \<and> required j = req \<and> optional j = opt \<and>
              lj_pred j = p \<and> peeksRequired j = replicate (length req) None \<and>
              peeksOptional j = replicate (length opt) None)"
  by (simp add: NewLeftJoinIterator_def)

subsection \<open>SyncIterator: exhaustion\<close>

text \<open>
  C10 fails on the code. The iterator \<open>twoGroups\<close> reads two row groups of one row each
  with a filter whose \<open>KeepPage\<close> rejects the only page of the first group and keeps the
  page of the second. \<open>SeekTo\<close> to row 0 at level 0 selects the first row group (row 0
  is below its upper bound), \<open>seekPages\<close> skips its page by the filter, finds no other
  page, closes the row group and reports \<open>done\<close>: \<open>SeekTo\<close> returns no result and no
  error. The next call of \<open>Next\<close> opens the second row group and returns the value at
  row 1. On the same iterator \<open>Next\<close> alone returns that result first and nothing after
  it: \<open>next\<close> goes on to the following row group where \<open>seekPages\<close> gives up.
\<close>

theorem SeekTo_exhaustion_not_permanent:
  "returned (SyncIterator_SeekTo (RN 0 (-1) (-1) (-1) (-1) (-1) (-1) (-1)) 0 twoGroups) =
     Some (Inr None) \<and>
   returned (afterwards (SyncIterator_SeekTo (RN 0 (-1) (-1) (-1) (-1) (-1) (-1) (-1)) 0 twoGroups)
              SyncIterator_Next) =
     Some (Inr (Some \<lparr>RowNumber = RN 1 (-1) (-1) (-1) (-1) (-1) (-1) (-1),
                      Entries = [], OtherEntries = []\<rparr>))"
  by code_simp

lemma Next_on_twoGroups:
  "returned (SyncIterator_Next twoGroups) =
     Some (Inr (Some \<lparr>RowNumber = RN 1 (-1) (-1) (-1) (-1) (-1) (-1) (-1),
                      Entries = [], OtherEntries = []\<rparr>)) \<and>
   returned (afterwards (SyncIterator_Next twoGroups) SyncIterator_Next) = Some (Inr None) \<and>
   returned (afterwards (afterwards (SyncIterator_Next twoGroups) SyncIterator_Next)
              SyncIterator_Next) = Some (Inr None)"
  by code_simp

subsection \<open>Comparison by keys\<close>

lemma lexcmp_map_sint:
  "length a = length b \<Longrightarrow>
   lexcmp a b = (if map sint a < map sint b then -1 else if map sint a = map sint b then 0 else 1)"
proof (induction a b rule: list_induct2)
  case Nil
  then show ?case by simp
next
  case (Cons x xs y ys)
  then show ?case by (auto simp: word_eq_iff_signed [where ?'a = int])
qed

lemma length_keyOf: "0 \<le> d \<Longrightarrow> d \<le> 7 \<Longrightarrow> length (keyOf d t) = nat (d + 1)"
  by (simp add: keyOf_def)

lemma CompareRowNumbers_keyOf:
  "d \<le> 7 \<Longrightarrow>
   CompareRowNumbers d a b =
     Some (if keyOf d a < keyOf d b then -1 else if keyOf d a = keyOf d b then 0 else 1)"
  by (simp add: CompareRowNumbers_cmp_upto cmp_upto_def keyOf_def lexcmp_map_sint take_map)

lemma EqualLoop_take:
  "0 \<le> i \<Longrightarrow> d \<le> 7 \<Longrightarrow>
   EqualLoop i d a b =
     Some (take (nat (d + 1 - i)) (drop (nat i) (rn_list a)) =
           take (nat (d + 1 - i)) (drop (nat i) (rn_list b)))"
proof (induction i d a b rule: EqualLoop.induct)
  case (1 i d a b)
  show ?case
  proof (cases "i \<le> d")
    case False
    then show ?thesis by (simp add: EqualLoop.simps [of i])
  next
    case True
    with 1 have i8: "nat i < 8" by simp
    have n: "nat (d + 1 - i) = Suc (nat (d + 1 - (i + 1)))" using True by simp
    have sn: "Suc (nat i) = nat (i + 1)" using "1.prems" by simp
    have da: "drop (nat i) (rn_list a) = rn_list a ! nat i # drop (nat (i + 1)) (rn_list a)"
      using i8 by (simp add: Cons_nth_drop_Suc sn [symmetric])
    have db: "drop (nat i) (rn_list b) = rn_list b ! nat i # drop (nat (i + 1)) (rn_list b)"
      using i8 by (simp add: Cons_nth_drop_Suc sn [symmetric])
    have at: "rn_at a i = Some (rn_list a ! nat i)" "rn_at b i = Some (rn_list b ! nat i)"
      using i8 "1.prems" by (simp_all add: rn_at_def)
    show ?thesis
    proof (cases "rn_list a ! nat i = rn_list b ! nat i")
      case False
      then show ?thesis
        by (subst EqualLoop.simps) (simp add: True at n da db)
    next
      case eq: True
      have "EqualLoop (i + 1) d a b =
         Some (take (nat (d + 1 - (i + 1))) (drop (nat (i + 1)) (rn_list a)) =
               take (nat (d + 1 - (i + 1))) (drop (nat (i + 1)) (rn_list b)))"
        using "1.IH" [OF True at(1) at(2)] eq "1.prems" by simp
      then show ?thesis
        by (subst EqualLoop.simps) (simp add: True at eq n da db)
    qed
  qed
qed

lemma inj_sint: "inj (sint :: int32 \<Rightarrow> int)"
  by (rule injI) (rule signed_word_eqI)

lemma EqualRowNumber_keyOf:
  "d \<le> 7 \<Longrightarrow> EqualRowNumber d a b = Some (keyOf d a = keyOf d b)"
  using EqualLoop_take [of 0 d a b]
  by (simp add: EqualRowNumber_def keyOf_def inj_map_eq_map [OF inj_sint])

lemma TruncateRowNumber_keyOf:
  "0 \<le> d \<Longrightarrow> d \<le> 7 \<Longrightarrow> \<exists>t'. TruncateRowNumber d t = Some t' \<and> keyOf d t' = keyOf d t"
proof -
  assume "0 \<le> d" "d \<le> 7"
  then have "d = 0 \<or> d = 1 \<or> d = 2 \<or> d = 3 \<or> d = 4 \<or> d = 5 \<or> d = 6 \<or> d = 7" by arith
  then show ?thesis by (cases t) (auto simp: keyOf_def)
qed

text \<open>A row number below another at level \<open>d\<close> is below it in the full comparison.\<close>

lemma keyOf_less_full:
  "0 \<le> d \<Longrightarrow> d \<le> 7 \<Longrightarrow> keyOf d a < keyOf d b \<Longrightarrow> keyOf 7 a < keyOf 7 b"
proof -
  assume d: "0 \<le> d" "d \<le> 7" and lt: "keyOf d a < keyOf d b"
  let ?n = "nat (d + 1)"
  have a: "keyOf 7 a = keyOf d a @ map sint (drop ?n (rn_list a))"
    by (simp add: keyOf_def flip: map_append)
  have b: "keyOf 7 b = keyOf d b @ map sint (drop ?n (rn_list b))"
    by (simp add: keyOf_def flip: map_append)
  have len: "length (keyOf d a) = length (keyOf d b)" using d by (simp add: length_keyOf)
  from lt have "(keyOf d a, keyOf d b) \<in> lexord {(u, v). u < v}"
    by (simp add: list_less_def)
  then have "(keyOf d a @ map sint (drop ?n (rn_list a)), keyOf d b @ map sint (drop ?n (rn_list b)))
      \<in> lexord {(u, v). u < v}"
    using len by (simp add: lexord_append_left_rightI lexord_sufI)
  then show ?thesis by (simp add: a b list_less_def)
qed

subsection \<open>Children that return given results\<close>

lemma IteratorNext_returning:
  "IteratorNext (returning xs) = Inr (headOption xs, returning (tl xs))"
  by (cases xs) (simp_all add: returning_def headOption_def)

lemma IteratorSeekTo_returning:
  "d \<le> 7 \<Longrightarrow>
   IteratorSeekTo (returning xs) t d =
     Inr (headOption (dropWhile (\<lambda>r. rowKey d r < keyOf d t) xs),
          returning (tl (dropWhile (\<lambda>r. rowKey d r < keyOf d t) xs)))"
proof (induction xs)
  case Nil
  then show ?case by (simp add: returning_def headOption_def)
next
  case (Cons x xs)
  then show ?case
    by (auto simp: returning_def headOption_def CompareRowNumbers_keyOf rowKey_def)
qed

lemma pending1_headOption_tl [simp]: "pending1 (headOption xs) (tl xs) = xs"
  by (cases xs) (simp_all add: pending1_def headOption_def)

lemma length_pending [simp]: "length (pending ps xss) = min (length ps) (length xss)"
  by (simp add: pending_def)

lemma nth_pending:
  "i < length ps \<Longrightarrow> i < length xss \<Longrightarrow> pending ps xss ! i = pending1 (ps ! i) (xss ! i)"
  by (simp add: pending_def)

lemma pending_update:
  "pending (ps[i := p]) (xss[i := xs]) = (pending ps xss)[i := pending1 p xs]"
proof -
  have "zip (ps[i := p]) (xss[i := xs]) = (zip ps xss)[i := (p, xs)]"
    by (simp add: update_zip)
  then show ?thesis by (simp add: pending_def map_update)
qed

lemma map_returning_update:
  "(map returning xss)[i := returning xs] = map returning (xss[i := xs])"
  by (simp add: map_update)

text \<open>\<open>peek\<close> fills the peek of child \<open>i\<close> and leaves the pending results as they are.\<close>

lemma peekAt_returning:
  assumes "i < length xss" and "length ps = length xss"
  shows "peekAt i (ps, map returning xss) =
     Inr (headOption (pending ps xss ! i),
          (ps[i := headOption (pending ps xss ! i)],
           map returning (xss[i := (case ps ! i of None \<Rightarrow> tl (xss ! i) | Some r \<Rightarrow> xss ! i)])))"
proof (cases "ps ! i")
  case None
  then show ?thesis using assms
    by (simp add: peekAt_def IteratorNext_returning nth_pending pending1_def map_update)
next
  case (Some r)
  then have "ps[i := Some r] = ps" by (metis list_update_id)
  then show ?thesis using assms Some
    by (simp add: peekAt_def nth_pending pending1_def headOption_def)
qed

text \<open>
  \<open>seek\<close> drops from the pending results of child \<open>i\<close> those below the target at
  level \<open>d\<close>, and peeks the first that is left.
\<close>

lemma seekAt_returning:
  assumes "d \<le> 7" and "i < length xss" and "length ps = length xss"
  shows "seekAt i t d (ps, map returning xss) =
     Inr (ps[i := headOption (dropWhile (\<lambda>r. rowKey d r < keyOf d t) (pending ps xss ! i))],
          map returning
            (xss[i := tl (dropWhile (\<lambda>r. rowKey d r < keyOf d t) (pending ps xss ! i))]))"
proof (cases "ps ! i")
  case None
  then show ?thesis using assms
    by (simp add: seekAt_def IteratorSeekTo_returning nth_pending pending1_def map_update)
next
  case (Some p)
  show ?thesis
  proof (cases "rowKey d p < keyOf d t")
    case True
    then show ?thesis using assms Some
      by (simp add: seekAt_def IteratorSeekTo_returning nth_pending pending1_def map_update
          CompareRowNumbers_keyOf rowKey_def)
  next
    case False
    have "ps[i := Some p] = ps" using Some by (metis list_update_id)
    moreover have "xss[i := xss ! i] = xss" by simp
    ultimately show ?thesis using assms Some False
      by (simp add: seekAt_def nth_pending pending1_def headOption_def
          CompareRowNumbers_keyOf rowKey_def)
  qed
qed

lemma pending_after_seekAt:
  "pending (ps[i := headOption ys]) (xss[i := tl ys]) = (pending ps xss)[i := ys]"
  by (simp add: pending_update)

text \<open>
  The inner loop of \<open>collect\<close>, on a child whose peek is filled unless it is exhausted:
  the results of the group are appended and dropped from the pending results.
\<close>

lemma collectWhile_returning:
  assumes "d \<le> 7"
  shows "collectWhile d rn res (Some p) (returning xs) =
     Inr (foldl Append res (takeWhile (\<lambda>r. rowKey d r = keyOf d rn) (p # xs)),
          headOption (dropWhile (\<lambda>r. rowKey d r = keyOf d rn) (p # xs)),
          returning (tl (dropWhile (\<lambda>r. rowKey d r = keyOf d rn) (p # xs))))"
proof (induction xs arbitrary: p res)
  case Nil
  then show ?case using assms
    by (simp add: collectWhile.simps EqualRowNumber_keyOf rowKey_def headOption_def
        IteratorNext_returning)
next
  case (Cons x xs)
  show ?case
  proof (cases "rowKey d p = keyOf d rn")
    case True
    then show ?thesis using assms Cons [of "Append res p" x]
      by (simp add: collectWhile.simps EqualRowNumber_keyOf rowKey_def IteratorNext_returning
          headOption_def)
  next
    case False
    then show ?thesis using assms
      by (simp add: collectWhile.simps EqualRowNumber_keyOf rowKey_def headOption_def)
  qed
qed

lemma collectWhile_None: "collectWhile d rn res None it = Inr (res, None, it)"
  by (simp add: collectWhile.simps)

lemma RowNumber_Append [simp]: "RowNumber (Append r rr) = RowNumber r"
  by (simp add: Append_def)

lemma RowNumber_foldl_Append [simp]: "RowNumber (foldl Append r rs) = RowNumber r"
  by (induction rs arbitrary: r) simp_all

lemma Entries_Append [simp]: "Entries (Append r rr) = Entries r @ Entries rr"
  by (simp add: Append_def)

lemma Entries_foldl_Append: "Entries (foldl Append r rs) = Entries r @ concat (map Entries rs)"
  by (induction rs arbitrary: r) simp_all

text \<open>Whatever the peek, the inner loop of \<open>collect\<close> succeeds on a child without errors.\<close>

lemma collectWhile_total:
  assumes "d \<le> 7"
  shows "\<exists>res' p' xs'. collectWhile d rn res p (returning xs) = Inr (res', p', returning xs') \<and>
           RowNumber res' = RowNumber res"
proof (cases p)
  case None
  then show ?thesis by (auto simp: collectWhile_None)
next
  case (Some r)
  have "RowNumber (foldl Append res (takeWhile (\<lambda>r. rowKey d r = keyOf d rn) (r # xs))) = RowNumber res"
    by simp
  then show ?thesis using Some collectWhile_returning [OF assms, of rn res r xs] by blast
qed

subsection \<open>Trimming pending results\<close>

lemma trimmed_refl: "trimmed d t P P"
  by (auto simp: trimmed_def)

lemma trimmed_trans: "trimmed d t P P' \<Longrightarrow> trimmed d t P' P'' \<Longrightarrow> trimmed d t P P''"
proof -
  assume a: "trimmed d t P P'" and b: "trimmed d t P' P''"
  have len: "length P' = length P" "length P'' = length P'" using a b by (auto simp: trimmed_def)
  {
    fix j assume j: "j < length P"
    from a j obtain ys where ys: "P ! j = ys @ P' ! j" "\<forall>y\<in>set ys. rowKey d y < t"
      by (auto simp: trimmed_def)
    from b j len obtain zs where zs: "P' ! j = zs @ P'' ! j" "\<forall>y\<in>set zs. rowKey d y < t"
      by (auto simp: trimmed_def)
    have "P ! j = (ys @ zs) @ P'' ! j \<and> (\<forall>y\<in>set (ys @ zs). rowKey d y < t)"
      using ys zs by auto
    then have "\<exists>ws. P ! j = ws @ P'' ! j \<and> (\<forall>y\<in>set ws. rowKey d y < t)" by blast
  }
  then show ?thesis using len by (simp add: trimmed_def)
qed

lemma trimmed_dropWhile:
  "trimmed d t P (P[i := dropWhile (\<lambda>r. rowKey d r < t) (P ! i)])"
proof -
  {
    fix j assume j: "j < length P"
    have "\<exists>ys. P ! j = ys @ P[i := dropWhile (\<lambda>r. rowKey d r < t) (P ! i)] ! j \<and>
               (\<forall>y\<in>set ys. rowKey d y < t)"
    proof (cases "j = i")
      case True
      have "P ! i = takeWhile (\<lambda>r. rowKey d r < t) (P ! i) @ dropWhile (\<lambda>r. rowKey d r < t) (P ! i)"
        by simp
      moreover have "\<forall>y\<in>set (takeWhile (\<lambda>r. rowKey d r < t) (P ! i)). rowKey d y < t"
        by (auto dest: set_takeWhileD)
      ultimately show ?thesis using True j by (metis nth_list_update_eq)
    next
      case False
      then show ?thesis by (intro exI [of _ "[]"]) simp
    qed
  }
  then show ?thesis by (simp add: trimmed_def)
qed

lemma trimmed_sorted:
  assumes "trimmed d t P P'" and "\<forall>xs\<in>set P. ascending d xs"
  shows "\<forall>xs\<in>set P'. ascending d xs"
proof
  fix xs assume "xs \<in> set P'"
  then obtain j where j: "j < length P'" "xs = P' ! j" by (auto simp: in_set_conv_nth)
  with assms(1) obtain ys where "P ! j = ys @ xs" by (auto simp: trimmed_def)
  moreover have "ascending d (P ! j)" using assms j by (auto simp: trimmed_def)
  ultimately show "ascending d xs" by (simp add: ascending_def sorted_append)
qed

lemma trimmed_remaining:
  assumes "trimmed d t P P'"
  shows "remaining P' \<le> remaining P"
proof -
  have len: "length P' = length P" using assms by (simp add: trimmed_def)
  have "\<forall>j<length P. length (P' ! j) \<le> length (P ! j)"
  proof (intro allI impI)
    fix j assume "j < length P"
    with assms obtain ys where "P ! j = ys @ P' ! j" by (auto simp: trimmed_def)
    then show "length (P' ! j) \<le> length (P ! j)" by simp
  qed
  then have "sum_list (map length P') \<le> sum_list (map length P)"
    using len by (intro sum_list_mono2) (simp_all)
  then show ?thesis by (simp add: remaining_def)
qed

lemma trimmed_allKeys:
  assumes "trimmed d t P P'"
  shows "allKeys d P' \<subseteq> allKeys d P"
proof
  fix g assume "g \<in> allKeys d P'"
  then obtain xs x where xs: "xs \<in> set P'" "x \<in> set xs" "g = rowKey d x"
    by (auto simp: allKeys_def)
  then obtain j where j: "j < length P'" "xs = P' ! j" by (auto simp: in_set_conv_nth)
  with assms obtain ys where "P ! j = ys @ xs" by (auto simp: trimmed_def)
  then have "x \<in> set (P ! j)" using xs by simp
  moreover have "P ! j \<in> set P" using j assms by (simp add: trimmed_def)
  ultimately show "g \<in> allKeys d P" using xs by (auto simp: allKeys_def)
qed

lemma trimmed_commonKeys:
  assumes "trimmed d t P P'" and "\<forall>g\<in>commonKeys d P. t \<le> g"
  shows "commonKeys d P' = commonKeys d P"
proof
  have len: "length P' = length P" using assms by (simp add: trimmed_def)
  show "commonKeys d P' \<subseteq> commonKeys d P"
  proof
    fix g assume g: "g \<in> commonKeys d P'"
    {
      fix xs assume "xs \<in> set P"
      then obtain j where j: "j < length P" "xs = P ! j" by (auto simp: in_set_conv_nth)
      with assms obtain ys where ys: "P ! j = ys @ P' ! j" by (auto simp: trimmed_def)
      have "P' ! j \<in> set P'" using j len by simp
      then have "g \<in> rowKey d ` set (P' ! j)" using g by (simp add: commonKeys_def)
      then have "g \<in> rowKey d ` set xs" using ys j by auto
    }
    then show "g \<in> commonKeys d P" by (simp add: commonKeys_def)
  qed
  show "commonKeys d P \<subseteq> commonKeys d P'"
  proof
    fix g assume g: "g \<in> commonKeys d P"
    then have tg: "t \<le> g" using assms(2) by blast
    {
      fix xs assume "xs \<in> set P'"
      then obtain j where j: "j < length P'" "xs = P' ! j" by (auto simp: in_set_conv_nth)
      with assms len obtain ys where ys: "P ! j = ys @ xs" "\<forall>y\<in>set ys. rowKey d y < t"
        by (auto simp: trimmed_def)
      have "P ! j \<in> set P" using j len by simp
      then have "g \<in> rowKey d ` set (P ! j)" using g by (simp add: commonKeys_def)
      then obtain x where x: "x \<in> set (P ! j)" "g = rowKey d x" by blast
      have "x \<notin> set ys" using ys(2) tg x(2) by auto
      then have "x \<in> set xs" using x(1) ys(1) by simp
      then have "g \<in> rowKey d ` set xs" using x(2) by blast
    }
    then show "g \<in> commonKeys d P'" by (simp add: commonKeys_def)
  qed
qed

text \<open>Exchanging two children changes none of the three.\<close>

lemma set_swap_lists:
  "i < length P \<Longrightarrow> k < length P \<Longrightarrow> set (P[i := P ! k, k := P ! i]) = set P"
  by (simp add: set_swap)

lemma mset_swap_lists:
  "i < length P \<Longrightarrow> k < length P \<Longrightarrow> mset (P[i := P ! k, k := P ! i]) = mset P"
  by (simp add: mset_swap)

lemma remaining_swap:
  assumes "i < length P" and "k < length P"
  shows "remaining (P[i := P ! k, k := P ! i]) = remaining P"
proof -
  have "mset (map length (P[i := P ! k, k := P ! i])) = mset (map length P)"
    using mset_swap_lists [OF assms] by (metis mset_map)
  then show ?thesis unfolding remaining_def by (metis sum_mset_sum_list)
qed

lemma commonKeys_swap:
  "i < length P \<Longrightarrow> k < length P \<Longrightarrow> commonKeys d (P[i := P ! k, k := P ! i]) = commonKeys d P"
  by (simp add: commonKeys_def set_swap_lists)

lemma allKeys_swap:
  "i < length P \<Longrightarrow> k < length P \<Longrightarrow> allKeys d (P[i := P ! k, k := P ! i]) = allKeys d P"
  by (simp add: allKeys_def set_swap_lists)

lemma pending_swap:
  "pending (ps[i := ps ! k, k := ps ! i]) (xss[i := xss ! k, k := xss ! i]) =
     (pending ps xss)[i := pending1 (ps ! k) (xss ! k), k := pending1 (ps ! i) (xss ! i)]"
  by (simp add: pending_update)

subsection \<open>The loops of a pass\<close>

lemma pending_after_peekAt:
  assumes "i < length xss" and "length ps = length xss"
  shows "pending (ps[i := headOption (pending ps xss ! i)])
           (xss[i := (case ps ! i of None \<Rightarrow> tl (xss ! i) | Some r \<Rightarrow> xss ! i)]) = pending ps xss"
proof -
  have "pending1 (headOption (pending ps xss ! i))
          (case ps ! i of None \<Rightarrow> tl (xss ! i) | Some r \<Rightarrow> xss ! i) = pending ps xss ! i"
    using assms by (cases "ps ! i") (simp_all add: nth_pending pending1_def headOption_def split: list.splits)
  then show ?thesis by (simp add: pending_update)
qed

lemma peekAll_returning:
  assumes "length ps = length xss"
  shows "\<exists>b ps' xss'.
     peekAll i (ps, map returning xss) = Inr (b, (ps', map returning xss')) \<and>
     length ps' = length xss \<and> length xss' = length xss \<and>
     pending ps' xss' = pending ps xss \<and>
     (\<forall>k. ps ! k \<noteq> None \<longrightarrow> ps' ! k = ps ! k) \<and>
     (\<forall>k<i. ps' ! k = ps ! k) \<and>
     (b \<longrightarrow> (\<forall>k. i \<le> k \<and> k < length xss \<longrightarrow> ps' ! k \<noteq> None)) \<and>
     (\<not> b \<longrightarrow> (\<exists>k<length xss. pending ps xss ! k = []))"
  using assms
proof (induction "length xss - i" arbitrary: i ps xss)
  case 0
  then have "\<not> i < length xss" by simp
  then have "peekAll i (ps, map returning xss) = Inr (True, (ps, map returning xss))"
    by (subst peekAll.simps) simp
  moreover have "\<forall>k. i \<le> k \<and> k < length xss \<longrightarrow> ps ! k \<noteq> None"
    using \<open>\<not> i < length xss\<close> by auto
  ultimately show ?case using "0.prems"
    by (intro exI [of _ True] exI [of _ ps] exI [of _ xss]) simp
next
  case (Suc m)
  then have i: "i < length xss" by simp
  let ?P = "pending ps xss"
  let ?h = "headOption (?P ! i)"
  let ?ps1 = "ps[i := ?h]"
  let ?xss1 = "xss[i := (case ps ! i of None \<Rightarrow> tl (xss ! i) | Some r \<Rightarrow> xss ! i)]"
  have pk: "peekAt i (ps, map returning xss) = Inr (?h, (?ps1, map returning ?xss1))"
    using i Suc.prems by (rule peekAt_returning)
  have P1: "pending ?ps1 ?xss1 = ?P" using i Suc.prems by (rule pending_after_peekAt)
  have keep: "\<forall>k. ps ! k \<noteq> None \<longrightarrow> ?ps1 ! k = ps ! k"
  proof (intro allI impI)
    fix k assume k: "ps ! k \<noteq> None"
    show "?ps1 ! k = ps ! k"
    proof (cases "k = i")
      case True
      then obtain r where "ps ! i = Some r" using k by auto
      then have "?h = Some r" using i Suc.prems by (simp add: nth_pending pending1_def headOption_def)
      then show ?thesis using True i Suc.prems \<open>ps ! i = Some r\<close> by simp
    next
      case False
      then show ?thesis by simp
    qed
  qed
  show ?case
  proof (cases ?h)
    case None
    then have "peekAll i (ps, map returning xss) = Inr (False, (?ps1, map returning ?xss1))"
      using i pk by (subst peekAll.simps) simp
    moreover have "?P ! i = []" using None by (simp add: headOption_def split: list.splits)
    moreover have "\<exists>k<length xss. ?P ! k = []" using i \<open>?P ! i = []\<close> by blast
    moreover have "\<forall>k<i. ?ps1 ! k = ps ! k" by simp
    moreover have "length ?ps1 = length xss" "length ?xss1 = length xss" using Suc.prems by simp_all
    ultimately show ?thesis using P1 keep
      by (intro exI [of _ False] exI [of _ ?ps1] exI [of _ ?xss1]) simp
  next
    case (Some r)
    have len1: "length ?ps1 = length ?xss1" using Suc.prems by simp
    have m: "m = length ?xss1 - (i + 1)" using Suc.hyps(2) by simp
    note IH = Suc.hyps(1) [OF m len1]
    then obtain b ps' xss' where ih:
      "peekAll (i + 1) (?ps1, map returning ?xss1) = Inr (b, (ps', map returning xss'))"
      "length ps' = length ?xss1" "length xss' = length ?xss1"
      "pending ps' xss' = pending ?ps1 ?xss1"
      "\<forall>k. ?ps1 ! k \<noteq> None \<longrightarrow> ps' ! k = ?ps1 ! k"
      "\<forall>k<i + 1. ps' ! k = ?ps1 ! k"
      "b \<longrightarrow> (\<forall>k. i + 1 \<le> k \<and> k < length ?xss1 \<longrightarrow> ps' ! k \<noteq> None)"
      "\<not> b \<longrightarrow> (\<exists>k<length ?xss1. pending ?ps1 ?xss1 ! k = [])"
      by (elim exE conjE) (rule that)
    have eq: "peekAll i (ps, map returning xss) = Inr (b, (ps', map returning xss'))"
      using i pk Some ih(1) by (subst peekAll.simps) simp
    have a: "\<forall>k. ps ! k \<noteq> None \<longrightarrow> ps' ! k = ps ! k"
    proof (intro allI impI)
      fix k assume k: "ps ! k \<noteq> None"
      then have "?ps1 ! k = ps ! k" using keep by blast
      then show "ps' ! k = ps ! k" using ih(5) k by simp
    qed
    have b: "\<forall>k<i. ps' ! k = ps ! k" using ih(6) by simp
    have c: "b \<longrightarrow> (\<forall>k. i \<le> k \<and> k < length xss \<longrightarrow> ps' ! k \<noteq> None)"
    proof (intro impI allI)
      fix k assume bb: b and k: "i \<le> k \<and> k < length xss"
      show "ps' ! k \<noteq> None"
      proof (cases "k = i")
        case True
        have "ps' ! i = ?ps1 ! i" using ih(6) by simp
        then show ?thesis using True Some i Suc.prems by simp
      next
        case False
        then show ?thesis using ih(7) bb k by simp
      qed
    qed
    have e: "\<not> b \<longrightarrow> (\<exists>k<length xss. ?P ! k = [])" using ih(8) P1 by simp
    have l: "length ps' = length xss" "length xss' = length xss" using ih(2,3) by simp_all
    have p: "pending ps' xss' = ?P" using ih(4) P1 by simp
    show ?thesis
      using eq l p a b c e
      by (intro exI [of _ b] exI [of _ ps'] exI [of _ xss']) simp
  qed
qed

lemma seekRestPost_step:
  assumes post: "seekRestPost d p0 (Suc i) ps1 P1 out"
    and tr: "trimmed d (rowKey d p0) P P1"
    and same: "\<forall>k<i. ps1 ! k = ps ! k"
    and at_i: "\<exists>p. ps1 ! i = Some p \<and> rowKey d p = rowKey d p0"
  shows "seekRestPost d p0 i ps P out"
proof -
  have len: "length P1 = length P" using tr by (simp add: trimmed_def)
  show ?thesis
  proof (cases out)
    case (Return r s')
    with post obtain P2 k where "r = None" "trimmed d (rowKey d p0) P1 P2" "k < length P1" "P2 ! k = []"
      by (auto simp: seekRestPost_def)
    then have "r = None \<and> trimmed d (rowKey d p0) P P2 \<and> k < length P \<and> P2 ! k = []"
      using tr len trimmed_trans by metis
    then show ?thesis using Return by (auto simp: seekRestPost_def)
  next
    case (Continue s')
    with post obtain ps2 xss2 k p where c:
      "length ps2 = length P1" "length xss2 = length P1"
      "trimmed d (rowKey d p0) P1 (pending ps2 xss2)"
      "0 < k" "k < length P1" "ps2 ! k = Some p" "rowKey d p0 < rowKey d p"
      "ps2 ! 0 = Some p0"
      "s' = (ps2[0 := ps2 ! k, k := ps2 ! 0], map returning (xss2[0 := xss2 ! k, k := xss2 ! 0]))"
      unfolding seekRestPost_def by (simp only: flow.case) (elim exE conjE, rule that)
    have "trimmed d (rowKey d p0) P (pending ps2 xss2)" using tr c(3) by (rule trimmed_trans)
    then have "\<exists>ps1 xss1 k p.
             length ps1 = length P \<and> length xss1 = length P \<and>
             trimmed d (rowKey d p0) P (pending ps1 xss1) \<and>
             0 < k \<and> k < length P \<and> ps1 ! k = Some p \<and> rowKey d p0 < rowKey d p \<and>
             ps1 ! 0 = Some p0 \<and>
             s' = (ps1[0 := ps1 ! k, k := ps1 ! 0],
                   map returning (xss1[0 := xss1 ! k, k := xss1 ! 0]))"
      using c len by (intro exI [of _ ps2] exI [of _ xss2] exI [of _ k] exI [of _ p]) simp
    then show ?thesis using Continue by (simp add: seekRestPost_def)
  next
    case (Proceed s')
    with post obtain ps' xss' where c:
      "s' = (ps', map returning xss')" "length ps' = length P1" "length xss' = length P1"
      "trimmed d (rowKey d p0) P1 (pending ps' xss')"
      "\<forall>k<Suc i. ps' ! k = ps1 ! k"
      "\<forall>k. Suc i \<le> k \<and> k < length P1 \<longrightarrow> (\<exists>p. ps' ! k = Some p \<and> rowKey d p = rowKey d p0)"
      unfolding seekRestPost_def by (simp only: flow.case) (elim exE conjE, rule that)
    have t: "trimmed d (rowKey d p0) P (pending ps' xss')" using tr c(4) by (rule trimmed_trans)
    have a: "\<forall>k<i. ps' ! k = ps ! k" using c(5) same by simp
    have b: "\<forall>k. i \<le> k \<and> k < length P \<longrightarrow> (\<exists>p. ps' ! k = Some p \<and> rowKey d p = rowKey d p0)"
    proof (intro allI impI)
      fix k assume k: "i \<le> k \<and> k < length P"
      show "\<exists>p. ps' ! k = Some p \<and> rowKey d p = rowKey d p0"
      proof (cases "k = i")
        case True
        then have "ps' ! k = ps1 ! i" using c(5) by simp
        then show ?thesis using at_i by simp
      next
        case False
        then show ?thesis using c(6) k len by simp
      qed
    qed
    have "\<exists>ps' xss'.
             s' = (ps', map returning xss') \<and> length ps' = length P \<and> length xss' = length P \<and>
             trimmed d (rowKey d p0) P (pending ps' xss') \<and>
             (\<forall>k<i. ps' ! k = ps ! k) \<and>
             (\<forall>k. i \<le> k \<and> k < length P \<longrightarrow> (\<exists>p. ps' ! k = Some p \<and> rowKey d p = rowKey d p0))"
      using c(1,2,3) len t a b by (intro exI [of _ ps'] exI [of _ xss']) simp
    then show ?thesis using Proceed by (simp add: seekRestPost_def)
  qed
qed

lemma map_swap:
  "i < length xs \<Longrightarrow> k < length xs \<Longrightarrow>
   (map f xs)[i := map f xs ! k, k := map f xs ! i] = map f (xs[i := xs ! k, k := xs ! i])"
  by (simp add: map_update)

lemma seekRest_returning:
  assumes d: "0 \<le> d" "d \<le> 7"
  shows "length ps = length xss \<Longrightarrow> 0 < i \<Longrightarrow> ps ! 0 = Some p0 \<Longrightarrow>
     \<exists>out. seekRest trunc d i (ps, map returning xss) = Inr out \<and>
           seekRestPost d p0 i ps (pending ps xss) out"
proof (induction "length xss - i" arbitrary: i ps xss)
  case 0
  then have "\<not> i < length xss" by simp
  then have "seekRest trunc d i (ps, map returning xss) = Inr (Proceed (ps, map returning xss))"
    by (subst seekRest.simps) simp
  moreover have "seekRestPost d p0 i ps (pending ps xss) (Proceed (ps, map returning xss))"
  proof -
    have "\<forall>k. i \<le> k \<and> k < length (pending ps xss) \<longrightarrow>
            (\<exists>p. ps ! k = Some p \<and> rowKey d p = rowKey d p0)"
      using \<open>\<not> i < length xss\<close> 0 by auto
    then have "\<exists>ps' xss'.
        (ps, map returning xss) = (ps', map returning xss') \<and>
        length ps' = length (pending ps xss) \<and> length xss' = length (pending ps xss) \<and>
        trimmed d (rowKey d p0) (pending ps xss) (pending ps' xss') \<and>
        (\<forall>k<i. ps' ! k = ps ! k) \<and>
        (\<forall>k. i \<le> k \<and> k < length (pending ps xss) \<longrightarrow>
            (\<exists>p. ps' ! k = Some p \<and> rowKey d p = rowKey d p0))"
      using 0 trimmed_refl by (intro exI [of _ ps] exI [of _ xss]) simp
    then show ?thesis by (simp add: seekRestPost_def)
  qed
  ultimately show ?case by blast
next
  case (Suc m)
  then have i: "i < length xss" by simp
  let ?P = "pending ps xss"
  let ?t0 = "rowKey d p0"
  obtain t where t: "(if trunc then TruncateRowNumber d (RowNumber p0) else Some (RowNumber p0)) = Some t"
    and kt: "keyOf d t = ?t0"
    using TruncateRowNumber_keyOf [OF d, of "RowNumber p0"] by (cases trunc) (auto simp: rowKey_def)
  define ys where "ys = dropWhile (\<lambda>r. rowKey d r < ?t0) (?P ! i)"
  let ?ps1 = "ps[i := headOption ys]"
  let ?xss1 = "xss[i := tl ys]"
  have sk: "seekAt i t d (ps, map returning xss) = Inr (?ps1, map returning ?xss1)"
    using seekAt_returning [OF d(2) i Suc.prems(1), of t] by (simp add: kt ys_def)
  have P1: "pending ?ps1 ?xss1 = ?P[i := ys]" by (rule pending_after_seekAt)
  have "trimmed d ?t0 ?P (?P[i := ys])" unfolding ys_def by (rule trimmed_dropWhile)
  then have tr: "trimmed d ?t0 ?P (pending ?ps1 ?xss1)" by (simp only: P1)
  have lenP: "length ?P = length xss" using Suc.prems(1) by simp
  have ps1i: "?ps1 ! i = headOption ys" using i Suc.prems(1) by simp
  have ps10: "?ps1 ! 0 = Some p0" using Suc.prems(2,3) by simp
  show ?case
  proof (cases ys)
    case Nil
    then have "?ps1 ! i = None" using ps1i by (simp add: headOption_def)
    then have eq: "seekRest trunc d i (ps, map returning xss) = Inr (Return None (?ps1, map returning ?xss1))"
      using i Suc.prems(3) t sk by (subst seekRest.simps) simp
    have "(pending ?ps1 ?xss1) ! i = []" using P1 Nil i lenP by simp
    then have "\<exists>P1 k. trimmed d ?t0 ?P P1 \<and> k < length ?P \<and> P1 ! k = []"
      using tr i lenP by (intro exI [of _ "pending ?ps1 ?xss1"] exI [of _ i]) simp
    then have "seekRestPost d p0 i ps ?P (Return None (?ps1, map returning ?xss1))"
      by (simp add: seekRestPost_def)
    then show ?thesis using eq by blast
  next
    case (Cons p rest)
    then have pi: "?ps1 ! i = Some p" using ps1i by (simp add: headOption_def)
    have "\<not> rowKey d p < ?t0"
      using Cons hd_dropWhile [of "\<lambda>r. rowKey d r < ?t0" "?P ! i"] unfolding ys_def by force
    then have ge: "?t0 \<le> rowKey d p" by simp
    have cmp: "CompareRowNumbers d (RowNumber p) (RowNumber p0) =
        Some (if ?t0 < rowKey d p then 1 else 0)"
      using ge d by (auto simp: CompareRowNumbers_keyOf rowKey_def)
    show ?thesis
    proof (cases "?t0 < rowKey d p")
      case True
      have sw: "(map returning ?xss1)[0 := map returning ?xss1 ! i, i := map returning ?xss1 ! 0] =
                map returning (?xss1[0 := ?xss1 ! i, i := ?xss1 ! 0])"
        using i by (intro map_swap) auto
      have eq: "seekRest trunc d i (ps, map returning xss) =
          Inr (Continue (?ps1[0 := ?ps1 ! i, i := ?ps1 ! 0],
                         map returning (?xss1[0 := ?xss1 ! i, i := ?xss1 ! 0])))"
        using i Suc.prems(3) t sk pi cmp True sw by (subst seekRest.simps) simp
      have "\<exists>ps1 xss1 k p.
             length ps1 = length ?P \<and> length xss1 = length ?P \<and>
             trimmed d ?t0 ?P (pending ps1 xss1) \<and>
             0 < k \<and> k < length ?P \<and> ps1 ! k = Some p \<and> ?t0 < rowKey d p \<and>
             ps1 ! 0 = Some p0 \<and>
             (?ps1[0 := ?ps1 ! i, i := ?ps1 ! 0], map returning (?xss1[0 := ?xss1 ! i, i := ?xss1 ! 0])) =
               (ps1[0 := ps1 ! k, k := ps1 ! 0], map returning (xss1[0 := xss1 ! k, k := xss1 ! 0]))"
        using tr lenP i Suc.prems(1,2) pi True ps10
        by (intro exI [of _ ?ps1] exI [of _ ?xss1] exI [of _ i] exI [of _ p]) simp
      then have "seekRestPost d p0 i ps ?P
          (Continue (?ps1[0 := ?ps1 ! i, i := ?ps1 ! 0],
                     map returning (?xss1[0 := ?xss1 ! i, i := ?xss1 ! 0])))"
        by (simp add: seekRestPost_def)
      then show ?thesis using eq by blast
    next
      case False
      then have keq: "rowKey d p = ?t0" using ge by simp
      have eq: "seekRest trunc d i (ps, map returning xss) =
          seekRest trunc d (i + 1) (?ps1, map returning ?xss1)"
        using i Suc.prems(3) t sk pi cmp False by (subst seekRest.simps) simp
      have m: "m = length ?xss1 - Suc i" using Suc.hyps(2) by simp
      have len1: "length ?ps1 = length ?xss1" using Suc.prems(1) by simp
      from Suc.hyps(1) [OF m len1 _ ps10]
      obtain out where out: "seekRest trunc d (Suc i) (?ps1, map returning ?xss1) = Inr out"
        "seekRestPost d p0 (Suc i) ?ps1 (pending ?ps1 ?xss1) out"
        by auto
      have same: "\<forall>k<i. ?ps1 ! k = ps ! k" by simp
      have "seekRestPost d p0 i ps ?P out"
        using out(2) tr same by (rule seekRestPost_step) (use pi keq in simp)
      then show ?thesis using eq out(1) by simp
    qed
  qed
qed

text \<open>
  The outer loop of \<open>collect\<close> over distinct children whose peeks are filled: from each
  it takes the first results of the group and appends them to the result.
\<close>

lemma collectEach_returning:
  assumes d: "d \<le> 7"
  shows "length ps = length xss \<Longrightarrow> distinct is \<Longrightarrow>
     \<forall>i\<in>set is. i < length xss \<and> ps ! i \<noteq> None \<Longrightarrow>
     \<exists>ps' xss'.
       collectEach d rn is res (ps, map returning xss) =
         Inr (foldl Append res
                (concat (map (\<lambda>i. takeWhile (\<lambda>r. rowKey d r = keyOf d rn) (pending ps xss ! i)) is)),
              (ps', map returning xss')) \<and>
       length ps' = length xss \<and> length xss' = length xss \<and>
       (\<forall>k<length xss. pending ps' xss' ! k =
           (if k \<in> set is then dropWhile (\<lambda>r. rowKey d r = keyOf d rn) (pending ps xss ! k)
            else pending ps xss ! k)) \<and>
       (\<forall>k. k \<notin> set is \<longrightarrow> ps' ! k = ps ! k \<and> xss' ! k = xss ! k)"
proof (induction "is" arbitrary: ps xss res)
  case Nil
  show ?case
    by (intro exI [of _ ps] exI [of _ xss]) (use Nil in simp)
next
  case (Cons i "is")
  let ?P = "pending ps xss"
  let ?g = "keyOf d rn"
  have i: "i < length xss" "ps ! i \<noteq> None" "i \<notin> set is" using Cons.prems by auto
  then obtain p where p: "ps ! i = Some p" by auto
  have Pi: "?P ! i = p # xss ! i" using i Cons.prems(1) p by (simp add: nth_pending pending1_def)
  define Q where "Q = dropWhile (\<lambda>r. rowKey d r = ?g) (?P ! i)"
  define res1 where "res1 = foldl Append res (takeWhile (\<lambda>r. rowKey d r = ?g) (?P ! i))"
  let ?ps1 = "ps[i := headOption Q]"
  let ?xss1 = "xss[i := tl Q]"
  have cw: "collectWhile d rn res (ps ! i) (map returning xss ! i) =
      Inr (res1, headOption Q, returning (tl Q))"
    using collectWhile_returning [OF d, of rn res p "xss ! i"] i p Pi
    by (simp add: Q_def res1_def)
  have step: "collectEach d rn (i # is) res (ps, map returning xss) =
      collectEach d rn is res1 (?ps1, map returning ?xss1)"
    using cw by (simp add: map_update)
  have P1: "pending ?ps1 ?xss1 = ?P[i := Q]" by (rule pending_after_seekAt)
  have len1: "length ?ps1 = length ?xss1" using Cons.prems(1) by simp
  have pre1: "\<forall>j\<in>set is. j < length ?xss1 \<and> ?ps1 ! j \<noteq> None"
  proof
    fix j assume j: "j \<in> set is"
    then have "j \<noteq> i" using i(3) by auto
    then have "?ps1 ! j = ps ! j" by simp
    then show "j < length ?xss1 \<and> ?ps1 ! j \<noteq> None" using Cons.prems(3) j by simp
  qed
  have dist: "distinct is" using Cons.prems(2) by simp
  from Cons.IH [OF len1 dist pre1, of res1]
  obtain ps' xss' where ih:
    "collectEach d rn is res1 (?ps1, map returning ?xss1) =
       Inr (foldl Append res1
              (concat (map (\<lambda>j. takeWhile (\<lambda>r. rowKey d r = ?g) (pending ?ps1 ?xss1 ! j)) is)),
            (ps', map returning xss'))"
    "length ps' = length ?xss1" "length xss' = length ?xss1"
    "\<forall>k<length ?xss1. pending ps' xss' ! k =
        (if k \<in> set is then dropWhile (\<lambda>r. rowKey d r = ?g) (pending ?ps1 ?xss1 ! k)
         else pending ?ps1 ?xss1 ! k)"
    "\<forall>k. k \<notin> set is \<longrightarrow> ps' ! k = ?ps1 ! k \<and> xss' ! k = ?xss1 ! k"
    by (elim exE conjE) (rule that)
  have same: "\<forall>j\<in>set is. pending ?ps1 ?xss1 ! j = ?P ! j"
  proof
    fix j assume "j \<in> set is"
    then have "j \<noteq> i" using i(3) by auto
    then show "pending ?ps1 ?xss1 ! j = ?P ! j" by (simp add: P1)
  qed
  have m: "map (\<lambda>j. takeWhile (\<lambda>r. rowKey d r = ?g) (pending ?ps1 ?xss1 ! j)) is =
           map (\<lambda>j. takeWhile (\<lambda>r. rowKey d r = ?g) (?P ! j)) is"
    using same by (intro map_cong) simp_all
  have r: "foldl Append res1
              (concat (map (\<lambda>j. takeWhile (\<lambda>r. rowKey d r = ?g) (pending ?ps1 ?xss1 ! j)) is)) =
           foldl Append res
              (concat (map (\<lambda>j. takeWhile (\<lambda>r. rowKey d r = ?g) (?P ! j)) (i # is)))"
    by (simp only: m) (simp add: res1_def)
  have pk: "\<forall>k<length xss. pending ps' xss' ! k =
           (if k \<in> set (i # is) then dropWhile (\<lambda>r. rowKey d r = ?g) (?P ! k) else ?P ! k)"
  proof (intro allI impI)
    fix k assume k: "k < length xss"
    show "pending ps' xss' ! k =
           (if k \<in> set (i # is) then dropWhile (\<lambda>r. rowKey d r = ?g) (?P ! k) else ?P ! k)"
    proof (cases "k = i")
      case True
      have "pending ps' xss' ! i = pending ?ps1 ?xss1 ! i" using ih(4) i by simp
      also have "\<dots> = Q" using P1 i Cons.prems(1) by simp
      finally show ?thesis using True by (simp add: Q_def)
    next
      case False
      have "pending ps' xss' ! k =
        (if k \<in> set is then dropWhile (\<lambda>r. rowKey d r = ?g) (pending ?ps1 ?xss1 ! k)
         else pending ?ps1 ?xss1 ! k)" using ih(4) k by simp
      moreover have "pending ?ps1 ?xss1 ! k = ?P ! k" using False by (simp add: P1)
      ultimately show ?thesis using False by simp
    qed
  qed
  have oth: "\<forall>k. k \<notin> set (i # is) \<longrightarrow> ps' ! k = ps ! k \<and> xss' ! k = xss ! k"
    using ih(5) by simp
  show ?case
    using step ih(1,2,3) r pk oth
    by (intro exI [of _ ps'] exI [of _ xss']) simp
qed

lemma commonKeys_lower_bound:
  assumes "P \<noteq> []" and "P ! 0 = p0 # rest" and "ascending d (P ! 0)"
  shows "\<forall>g\<in>commonKeys d P. rowKey d p0 \<le> g"
proof
  fix g assume "g \<in> commonKeys d P"
  moreover have "P ! 0 \<in> set P" using assms(1) by (cases P) simp_all
  ultimately have "g \<in> rowKey d ` set (P ! 0)" by (simp add: commonKeys_def)
  then show "rowKey d p0 \<le> g" using assms(2,3) by (auto simp: ascending_def)
qed

lemma commonKeys_empty_list:
  "k < length P \<Longrightarrow> P ! k = [] \<Longrightarrow> commonKeys d P = {}"
proof -
  assume "k < length P" "P ! k = []"
  then have "[] \<in> set P" by (metis nth_mem)
  then show ?thesis by (auto simp: commonKeys_def intro: bexI [of _ "[]"])
qed

lemma alignPost_of_seekRestPost:
  assumes post: "seekRestPost d p0 1 ps P out"
    and ne: "P \<noteq> []"
    and sorted: "\<forall>xs\<in>set P. ascending d xs"
    and hd: "P ! 0 = p0 # rest"
    and ps0: "ps ! 0 = Some p0"
  shows "alignPost d P out"
proof -
  have P0: "P ! 0 \<in> set P" using ne by (cases P) simp_all
  have lb: "\<forall>g\<in>commonKeys d P. rowKey d p0 \<le> g"
    using ne hd sorted P0 by (intro commonKeys_lower_bound [of P p0 rest]) simp_all
  show ?thesis
  proof (cases out)
    case (Return r s')
    with post obtain P1 k where r: "r = None" and t: "trimmed d (rowKey d p0) P P1"
      and k: "k < length P" "P1 ! k = []"
      by (auto simp: seekRestPost_def)
    have "length P1 = length P" using t by (simp add: trimmed_def)
    then have "commonKeys d P1 = {}" using k commonKeys_empty_list by metis
    moreover have "commonKeys d P1 = commonKeys d P" using t lb by (rule trimmed_commonKeys)
    ultimately show ?thesis using Return r by (simp add: alignPost_def)
  next
    case (Continue s')
    with post obtain ps1 xss1 k p where c:
      "length ps1 = length P" "length xss1 = length P"
      "trimmed d (rowKey d p0) P (pending ps1 xss1)"
      "0 < k" "k < length P" "ps1 ! k = Some p" "rowKey d p0 < rowKey d p"
      "ps1 ! 0 = Some p0"
      "s' = (ps1[0 := ps1 ! k, k := ps1 ! 0], map returning (xss1[0 := xss1 ! k, k := xss1 ! 0]))"
      unfolding seekRestPost_def by (simp only: flow.case) (elim exE conjE, rule that)
    define P1 where "P1 = pending ps1 xss1"
    define ps' where "ps' = ps1[0 := ps1 ! k, k := ps1 ! 0]"
    define xss' where "xss' = xss1[0 := xss1 ! k, k := xss1 ! 0]"
    have lenP1: "length P1 = length P" using c(1,2) by (simp add: P1_def)
    have n0: "0 < length P" using ne by simp
    have P': "pending ps' xss' = P1[0 := P1 ! k, k := P1 ! 0]"
      unfolding ps'_def xss'_def P1_def using c(1,2,5) n0
      by (simp add: pending_swap nth_pending)
    have t: "trimmed d (rowKey d p0) P P1" using c(3) by (simp add: P1_def)
    have s1: "\<forall>xs\<in>set P1. ascending d xs" using t sorted by (rule trimmed_sorted)
    have a1: "\<forall>xs\<in>set (pending ps' xss'). ascending d xs"
      using s1 set_swap_lists [of 0 P1 k] lenP1 c(5) n0 by (simp add: P')
    have a2: "commonKeys d (pending ps' xss') = commonKeys d P"
      using commonKeys_swap [of 0 P1 k d] trimmed_commonKeys [OF t lb] lenP1 c(5) n0
      by (simp add: P')
    have a3: "remaining (pending ps' xss') \<le> remaining P"
      using remaining_swap [of 0 P1 k] trimmed_remaining [OF t] lenP1 c(5) n0 by (simp add: P')
    have a4: "allKeys d (pending ps' xss') \<subseteq> allKeys d P"
      using allKeys_swap [of 0 P1 k d] trimmed_allKeys [OF t] lenP1 c(5) n0 by (simp add: P')
    have a5: "ps' ! 0 = Some p" using c(1,4,5,6) n0 by (simp add: ps'_def)
    have "P1 ! k = p # xss1 ! k" using c(1,2,5,6) by (simp add: P1_def nth_pending pending1_def)
    then have "p \<in> set (P1 ! k)" by simp
    moreover have "P1 ! k \<in> set P1" using c(5) lenP1 by simp
    ultimately have "rowKey d p \<in> allKeys d P1" by (auto simp: allKeys_def)
    then have a6: "rowKey d p \<in> allKeys d P" using trimmed_allKeys [OF t] by blast
    have l: "length ps' = length P" "length xss' = length P" using c(1,2) by (simp_all add: ps'_def xss'_def)
    have "\<exists>ps' xss' p p0 rest.
             s' = (ps', map returning xss') \<and> length ps' = length P \<and> length xss' = length P \<and>
             (\<forall>xs\<in>set (pending ps' xss'). ascending d xs) \<and>
             commonKeys d (pending ps' xss') = commonKeys d P \<and>
             remaining (pending ps' xss') \<le> remaining P \<and>
             allKeys d (pending ps' xss') \<subseteq> allKeys d P \<and>
             P ! 0 = p0 # rest \<and> ps' ! 0 = Some p \<and>
             rowKey d p0 < rowKey d p \<and> rowKey d p \<in> allKeys d P"
      using c(9) l a1 a2 a3 a4 hd a5 c(7) a6
      by (intro exI [of _ ps'] exI [of _ xss'] exI [of _ p] exI [of _ p0] exI [of _ rest])
         (simp add: ps'_def xss'_def)
    then show ?thesis using Continue by (simp add: alignPost_def)
  next
    case (Proceed s')
    with post obtain ps' xss' where c:
      "s' = (ps', map returning xss')" "length ps' = length P" "length xss' = length P"
      "trimmed d (rowKey d p0) P (pending ps' xss')"
      "\<forall>k<1. ps' ! k = ps ! k"
      "\<forall>k. 1 \<le> k \<and> k < length P \<longrightarrow> (\<exists>p. ps' ! k = Some p \<and> rowKey d p = rowKey d p0)"
      unfolding seekRestPost_def by (simp only: flow.case) (elim exE conjE, rule that)
    have p0': "ps' ! 0 = Some p0" using c(5) ps0 by simp
    have al: "\<forall>k<length P. \<exists>p. ps' ! k = Some p \<and> rowKey d p = rowKey d p0"
    proof (intro allI impI)
      fix k assume k: "k < length P"
      show "\<exists>p. ps' ! k = Some p \<and> rowKey d p = rowKey d p0"
      proof (cases "k = 0")
        case True
        then show ?thesis using p0' by simp
      next
        case False
        then show ?thesis using c(6) k by simp
      qed
    qed
    have "\<exists>ps' xss' p0.
             s' = (ps', map returning xss') \<and> length ps' = length P \<and> length xss' = length P \<and>
             (\<forall>xs\<in>set (pending ps' xss'). ascending d xs) \<and>
             commonKeys d (pending ps' xss') = commonKeys d P \<and>
             remaining (pending ps' xss') \<le> remaining P \<and>
             allKeys d (pending ps' xss') \<subseteq> allKeys d P \<and>
             ps' ! 0 = Some p0 \<and>
             (\<forall>k<length P. \<exists>p. ps' ! k = Some p \<and> rowKey d p = rowKey d p0)"
      using c(1,2,3) trimmed_sorted [OF c(4) sorted] trimmed_commonKeys [OF c(4) lb]
        trimmed_remaining [OF c(4)] trimmed_allKeys [OF c(4)] p0' al
      by (intro exI [of _ ps'] exI [of _ xss'] exI [of _ p0]) simp
    then show ?thesis using Proceed by (simp add: alignPost_def)
  qed
qed

lemma alignChildren_returning:
  assumes d: "0 \<le> d" "d \<le> 7"
    and len: "length ps = length xss"
    and n: "0 < length xss"
    and sorted: "\<forall>xs\<in>set (pending ps xss). ascending d xs"
  shows "\<exists>out. alignChildren trunc d (ps, map returning xss) = Inr out \<and>
               alignPost d (pending ps xss) out"
proof -
  let ?P = "pending ps xss"
  have ne: "?P \<noteq> []" using len n by (metis length_pending less_numeral_extra(3) list.size(3) min.idem)
  have lps: "length ps \<noteq> 0" using len n by simp
  show ?thesis
  proof (cases "ps ! 0")
    case (Some p0)
    have hd: "?P ! 0 = p0 # xss ! 0" using Some len n by (simp add: nth_pending pending1_def)
    from seekRest_returning [OF d len _ Some, of 1 trunc]
    obtain out where out: "seekRest trunc d 1 (ps, map returning xss) = Inr out"
      "seekRestPost d p0 1 ps ?P out" by auto
    have "alignChildren trunc d (ps, map returning xss) = Inr out"
      using lps Some out(1) by (simp add: alignChildren_def)
    moreover have "alignPost d ?P out"
      using out(2) ne sorted hd Some by (rule alignPost_of_seekRestPost)
    ultimately show ?thesis by blast
  next
    case None
    from peekAll_returning [OF len, of 0]
    obtain b ps' xss' where pa:
      "peekAll 0 (ps, map returning xss) = Inr (b, (ps', map returning xss'))"
      "length ps' = length xss" "length xss' = length xss"
      "pending ps' xss' = ?P"
      "b \<longrightarrow> (\<forall>k. 0 \<le> k \<and> k < length xss \<longrightarrow> ps' ! k \<noteq> None)"
      "\<not> b \<longrightarrow> (\<exists>k<length xss. ?P ! k = [])"
      by (elim exE conjE) (rule that)
    show ?thesis
    proof (cases b)
      case False
      then obtain k where "k < length xss" "?P ! k = []" using pa(6) by blast
      then have "commonKeys d ?P = {}" using len commonKeys_empty_list [of k ?P d] by simp
      then have "alignPost d ?P (Return None (ps', map returning xss'))"
        by (simp add: alignPost_def)
      moreover have "alignChildren trunc d (ps, map returning xss) =
          Inr (Return None (ps', map returning xss'))"
        using lps None pa(1) False by (simp add: alignChildren_def)
      ultimately show ?thesis by blast
    next
      case True
      then have "ps' ! 0 \<noteq> None" using pa(5) n by simp
      then obtain p0 where p0: "ps' ! 0 = Some p0" by auto
      have len': "length ps' = length xss'" using pa(2,3) by simp
      have hd: "?P ! 0 = p0 # xss' ! 0"
        using p0 pa(2,3,4) n by (metis nth_pending pending1_def option.simps(5))
      from seekRest_returning [OF d len' _ p0, of 1 trunc]
      obtain out where out: "seekRest trunc d 1 (ps', map returning xss') = Inr out"
        "seekRestPost d p0 1 ps' (pending ps' xss') out" by auto
      have "alignChildren trunc d (ps, map returning xss) = Inr out"
        using lps None pa(1) True out(1) by (simp add: alignChildren_def)
      moreover have "alignPost d ?P out"
        using out(2) ne sorted hd p0 unfolding pa(4) by (rule alignPost_of_seekRestPost)
      ultimately show ?thesis by blast
    qed
  qed
qed

subsection \<open>Taking one group out of the pending results\<close>

lemma keys_dropWhile_group:
  "sorted (map f xs) \<Longrightarrow> \<forall>x\<in>set xs. t \<le> f x \<Longrightarrow>
   f ` set (dropWhile (\<lambda>x. f x = t) xs) = {g \<in> f ` set xs. t < (g::int list)}"
proof (induction xs)
  case Nil
  then show ?case by simp
next
  case (Cons x xs)
  show ?case
  proof (cases "f x = t")
    case True
    then show ?thesis using Cons by auto
  next
    case False
    then have "t < f x" using Cons.prems(2) by (simp add: less_le)
    moreover have "\<forall>y\<in>set xs. f x \<le> f y" using Cons.prems(1) by simp
    ultimately have "\<forall>y\<in>set (x # xs). t < f y" by auto
    then show ?thesis using False by auto
  qed
qed

lemma ascending_head_least:
  "ascending d (p # rest) \<Longrightarrow> \<forall>x\<in>set (p # rest). rowKey d p \<le> rowKey d x"
  by (auto simp: ascending_def)

lemma ascending_dropWhile: "ascending d xs \<Longrightarrow> ascending d (dropWhile Q xs)"
proof -
  assume a: "ascending d xs"
  have "xs = takeWhile Q xs @ dropWhile Q xs" by simp
  then have "sorted (map (rowKey d) (takeWhile Q xs @ dropWhile Q xs))"
    using a by (simp add: ascending_def)
  then show ?thesis unfolding ascending_def map_append sorted_append by simp
qed

lemma length_withoutGroup [simp]: "length (withoutGroup d g P) = length P"
  by (simp add: withoutGroup_def)

lemma withoutGroup_ascending:
  "\<forall>xs\<in>set P. ascending d xs \<Longrightarrow> \<forall>xs\<in>set (withoutGroup d g P). ascending d xs"
  by (auto simp: withoutGroup_def ascending_dropWhile)

lemma withoutGroup_allKeys: "allKeys d (withoutGroup d g P) \<subseteq> allKeys d P"
  by (auto simp: withoutGroup_def allKeys_def dest: set_dropWhileD)

lemma withoutGroup_commonKeys:
  assumes sorted: "\<forall>xs\<in>set P. ascending d xs"
    and heads: "\<forall>xs\<in>set P. \<exists>p rest. xs = p # rest \<and> rowKey d p = g"
    and ne: "P \<noteq> []"
  shows "commonKeys d (withoutGroup d g P) = {h \<in> commonKeys d P. g < h}"
proof -
  have each: "rowKey d ` set (dropWhile (\<lambda>r. rowKey d r = g) xs) = {h \<in> rowKey d ` set xs. g < h}"
    if xs: "xs \<in> set P" for xs
  proof -
    from heads xs obtain p rest where p: "xs = p # rest" "rowKey d p = g" by blast
    have "ascending d (p # rest)" using sorted xs p by simp
    then have "\<forall>x\<in>set xs. g \<le> rowKey d x" using ascending_head_least p by blast
    moreover have "sorted (map (rowKey d) xs)" using sorted xs by (simp add: ascending_def)
    ultimately show ?thesis by (rule keys_dropWhile_group [rotated])
  qed
  obtain x0 where x0: "x0 \<in> set P" using ne by (cases P) auto
  have "commonKeys d (withoutGroup d g P) =
        {h. \<forall>xs\<in>set P. h \<in> rowKey d ` set (dropWhile (\<lambda>r. rowKey d r = g) xs)}"
    by (simp add: commonKeys_def withoutGroup_def)
  also have "\<dots> = {h. \<forall>xs\<in>set P. h \<in> {h \<in> rowKey d ` set xs. g < h}}"
    using each by simp
  also have "\<dots> = {h \<in> commonKeys d P. g < h}"
    using x0 by (auto simp: commonKeys_def)
  finally show ?thesis .
qed

lemma group_in_commonKeys:
  "\<forall>xs\<in>set P. \<exists>p rest. xs = p # rest \<and> rowKey d p = g \<Longrightarrow> g \<in> commonKeys d P"
  by (fastforce simp: commonKeys_def)

lemma withoutGroup_remaining:
  assumes heads: "\<forall>xs\<in>set P. \<exists>p rest. xs = p # rest \<and> rowKey d p = g"
    and ne: "P \<noteq> []"
  shows "remaining (withoutGroup d g P) < remaining P"
  using assms
proof (induction P)
  case Nil
  then show ?case by simp
next
  case (Cons xs P)
  from Cons.prems(1) obtain p rest where p: "xs = p # rest" "rowKey d p = g" by auto
  have "length (dropWhile (\<lambda>r. rowKey d r = g) xs) \<le> length rest"
    using p by (simp add: length_dropWhile_le)
  then have a: "length (dropWhile (\<lambda>r. rowKey d r = g) xs) < length xs" using p by simp
  have b: "remaining (withoutGroup d g P) \<le> remaining P"
    by (simp add: remaining_def withoutGroup_def sum_list_mono length_dropWhile_le)
  show ?case using a b by (simp add: remaining_def withoutGroup_def)
qed

subsection \<open>collect over all the children\<close>

lemma map_nth_upt: "map (\<lambda>i. f (P ! i)) [0 ..< length P] = map f P"
  by (rule nth_equalityI) simp_all

lemma collectAll_returning:
  assumes d: "d \<le> 7"
    and len: "length ps = length xss"
    and peeks: "\<forall>k<length xss. ps ! k \<noteq> None"
  shows "\<exists>ps' xss'.
          collectEach d rn [0 ..< length xss] res (ps, map returning xss) =
            Inr (foldl Append res (groupAt d (keyOf d rn) (pending ps xss)), (ps', map returning xss')) \<and>
          length ps' = length xss \<and> length xss' = length xss \<and>
          pending ps' xss' = withoutGroup d (keyOf d rn) (pending ps xss)"
proof -
  let ?P = "pending ps xss"
  let ?Q = "\<lambda>r. rowKey d r = keyOf d rn"
  have lenP: "length ?P = length xss" using len by (simp add: length_pending)
  have pre: "\<forall>i\<in>set [0 ..< length xss]. i < length xss \<and> ps ! i \<noteq> None"
    using peeks by simp
  have dist: "distinct [0 ..< length xss]" by simp
  from collectEach_returning [OF d len dist pre, of rn res]
  obtain ps' xss' where c:
    "collectEach d rn [0 ..< length xss] res (ps, map returning xss) =
       Inr (foldl Append res (concat (map (\<lambda>i. takeWhile ?Q (?P ! i)) [0 ..< length xss])),
            (ps', map returning xss'))"
    "length ps' = length xss" "length xss' = length xss"
    "\<forall>k<length xss. pending ps' xss' ! k =
        (if k \<in> set [0 ..< length xss] then dropWhile ?Q (?P ! k) else ?P ! k)"
    by (elim exE conjE) (rule that)
  have g: "concat (map (\<lambda>i. takeWhile ?Q (?P ! i)) [0 ..< length xss]) = groupAt d (keyOf d rn) ?P"
    using map_nth_upt [of "takeWhile ?Q" ?P] lenP by (simp add: groupAt_def)
  have w: "pending ps' xss' = withoutGroup d (keyOf d rn) ?P"
  proof (rule nth_equalityI)
    show "length (pending ps' xss') = length (withoutGroup d (keyOf d rn) ?P)"
      using c(2,3) lenP by (simp add: length_pending)
  next
    fix k assume "k < length (pending ps' xss')"
    then have k: "k < length xss" using c(2,3) by (simp add: length_pending)
    then show "pending ps' xss' ! k = withoutGroup d (keyOf d rn) ?P ! k"
      using c(4) lenP by (simp add: withoutGroup_def)
  qed
  show ?thesis
    using c(1,2,3) g w by (intro exI [of _ ps'] exI [of _ xss']) simp
qed

subsection \<open>Reading to the end an iterator whose Next is a loop of passes\<close>

lemma readAll_end: "nxt s = Some (Inr (None, s')) \<Longrightarrow> readAll nxt s = Some (Inr [])"
  by (subst readAll.simps) simp

lemma readAll_same: "nxt s = nxt s' \<Longrightarrow> readAll nxt s = readAll nxt s'"
  by (subst readAll.simps, subst (2) readAll.simps) simp

lemma readAll_result:
  "nxt s = Some (Inr (Some r, s')) \<Longrightarrow> readAll nxt s' = Some (Inr rs) \<Longrightarrow>
   readAll nxt s = Some (Inr (r # rs))"
  by (subst readAll.simps) simp

lemma readAll_of_passes:
  fixes nxt :: "'s \<Rightarrow> (error + (IteratorResult option \<times> 's)) option"
    and pass :: "'s \<Rightarrow> error + (IteratorResult option, 's) flow"
    and mk :: "'c \<Rightarrow> GroupPredicate option \<Rightarrow> 's"
    and K :: "'c \<Rightarrow> int list set"
    and key :: "IteratorResult \<Rightarrow> int list"
    and m1 m2 :: "'c \<Rightarrow> nat"
  assumes unfold: "\<And>s. nxt s =
       (case pass s of
          Inl e \<Rightarrow> Some (Inl e)
        | Inr (Return r s') \<Rightarrow> Some (Inr (r, s'))
        | Inr (Continue s') \<Rightarrow> nxt s'
        | Inr (Proceed s') \<Rightarrow> nxt s')"
    and step: "\<And>c. I c \<Longrightarrow>
       (K c = {} \<and> (\<forall>f. \<exists>s'. pass (mk c f) = Inr (Return None s'))) \<or>
       (\<exists>c'. I c' \<and> K c' = K c \<and> (m1 c' < m1 c \<or> m1 c' = m1 c \<and> m2 c' < m2 c) \<and>
             (\<forall>f. pass (mk c f) = Inr (Continue (mk c' f)))) \<or>
       (\<exists>r c'. I c' \<and> Q r \<and> key r \<in> K c \<and> (\<forall>h\<in>K c. key r \<le> h) \<and>
             K c' = {h \<in> K c. key r < h} \<and> m1 c' < m1 c \<and>
             (\<forall>f. pass (mk c f) =
                (case keepGroup f r of
                   None \<Rightarrow> Inl Panic
                 | Some True \<Rightarrow> Inr (Return (Some r) (mk c' f))
                 | Some False \<Rightarrow> Inr (Continue (mk c' f)))))"
  shows "I c \<Longrightarrow>
     \<exists>gs. sorted_wrt (<) (map key gs) \<and> set (map key gs) = K c \<and> (\<forall>r\<in>set gs. Q r) \<and>
          (\<forall>f. (\<forall>r. keepGroup f r \<noteq> None) \<longrightarrow>
               readAll nxt (mk c f) = Some (Inr (filter (\<lambda>r. keepGroup f r = Some True) gs)))"
proof -
  define R where "R = inv_image (less_than <*lex*> less_than) (\<lambda>c. (m1 c, m2 c))"
  have wf: "wf R" unfolding R_def by (intro wf_inv_image wf_lex_prod wf_less_than)
  assume "I c"
  with wf show ?thesis
  proof (induction c rule: wf_induct_rule)
    case (less c)
    from step [OF less.prems] consider
      (stop) "K c = {}" "\<forall>f. \<exists>s'. pass (mk c f) = Inr (Return None s')"
    | (again) c' where "I c'" "K c' = K c" "m1 c' < m1 c \<or> m1 c' = m1 c \<and> m2 c' < m2 c"
        "\<forall>f. pass (mk c f) = Inr (Continue (mk c' f))"
    | (emit) r c' where "I c'" "Q r" "key r \<in> K c" "\<forall>h\<in>K c. key r \<le> h"
        "K c' = {h \<in> K c. key r < h}" "m1 c' < m1 c"
        "\<forall>f. pass (mk c f) =
                (case keepGroup f r of
                   None \<Rightarrow> Inl Panic
                 | Some True \<Rightarrow> Inr (Return (Some r) (mk c' f))
                 | Some False \<Rightarrow> Inr (Continue (mk c' f)))"
      by blast
    then show ?case
    proof cases
      case stop
      have "readAll nxt (mk c f) = Some (Inr [])" for f
      proof -
        from stop(2) obtain s' where "pass (mk c f) = Inr (Return None s')" by blast
        then have "nxt (mk c f) = Some (Inr (None, s'))" by (subst unfold) simp
        then show ?thesis by (rule readAll_end)
      qed
      then show ?thesis using stop(1) by (intro exI [of _ "[]"]) simp
    next
      case again
      have "(c', c) \<in> R" using again(3) by (auto simp: R_def)
      from less.IH [OF this again(1)] obtain gs where gs:
        "sorted_wrt (<) (map key gs)" "set (map key gs) = K c'" "\<forall>r\<in>set gs. Q r"
        "\<forall>f. (\<forall>r. keepGroup f r \<noteq> None) \<longrightarrow>
               readAll nxt (mk c' f) = Some (Inr (filter (\<lambda>r. keepGroup f r = Some True) gs))"
        by (elim exE conjE) (rule that)
      have "readAll nxt (mk c f) = readAll nxt (mk c' f)" for f
      proof -
        have "nxt (mk c f) = nxt (mk c' f)" using again(4) by (subst unfold) simp
        then show ?thesis by (rule readAll_same)
      qed
      then show ?thesis using gs again(2) by (intro exI [of _ gs]) simp
    next
      case emit
      have "(c', c) \<in> R" using emit(6) by (auto simp: R_def)
      from less.IH [OF this emit(1)] obtain gs where gs:
        "sorted_wrt (<) (map key gs)" "set (map key gs) = K c'" "\<forall>r\<in>set gs. Q r"
        "\<forall>f. (\<forall>r. keepGroup f r \<noteq> None) \<longrightarrow>
               readAll nxt (mk c' f) = Some (Inr (filter (\<lambda>r. keepGroup f r = Some True) gs))"
        by (elim exE conjE) (rule that)
      have a: "sorted_wrt (<) (map key (r # gs))" using gs(1,2) emit(5) by auto
      have b: "set (map key (r # gs)) = K c"
      proof -
        have "K c = insert (key r) {h \<in> K c. key r < h}" using emit(3,4) by (auto simp: less_le)
        then show ?thesis using gs(2) emit(5) by simp
      qed
      have c: "\<forall>x\<in>set (r # gs). Q x" using gs(3) emit(2) by simp
      have d: "readAll nxt (mk c f) = Some (Inr (filter (\<lambda>r. keepGroup f r = Some True) (r # gs)))"
        if tot: "\<forall>r. keepGroup f r \<noteq> None" for f
      proof -
        have rest: "readAll nxt (mk c' f) = Some (Inr (filter (\<lambda>r. keepGroup f r = Some True) gs))"
          using gs(4) tot by blast
        from tot have "keepGroup f r \<noteq> None" by (rule spec)
        then obtain b where b: "keepGroup f r = Some b" by (cases "keepGroup f r") simp_all
        show ?thesis
        proof (cases b)
          case True
          then have "pass (mk c f) = Inr (Return (Some r) (mk c' f))" using emit(7) b by simp
          then have "nxt (mk c f) = Some (Inr (Some r, mk c' f))" by (subst unfold) simp
          from readAll_result [OF this rest] show ?thesis using b True by simp
        next
          case False
          then have "pass (mk c f) = Inr (Continue (mk c' f))" using emit(7) b by simp
          then have "nxt (mk c f) = nxt (mk c' f)" by (subst unfold) simp
          from readAll_same [OF this] show ?thesis using rest b False by simp
        qed
      qed
      show ?thesis using a b c d by (intro exI [of _ "r # gs"]) blast
    qed
  qed
qed

subsection \<open>A pass of JoinIterator.Next\<close>

lemma finite_allKeys [simp]: "finite (allKeys d P)"
  by (simp add: allKeys_def)

lemma groupsAbove_less:
  assumes "P ! 0 = p0 # rest" and "P' ! 0 = p # rest'" and "rowKey d p0 < rowKey d p"
    and "rowKey d p \<in> allKeys d P" and "allKeys d P' \<subseteq> allKeys d P"
  shows "groupsAbove d P' < groupsAbove d P"
proof -
  have "{g \<in> allKeys d P'. rowKey d p < g} \<subset> {g \<in> allKeys d P. rowKey d p0 < g}"
    using assms(3,4,5) by auto
  moreover have "finite {g \<in> allKeys d P. rowKey d p0 < g}" by simp
  ultimately have "card {g \<in> allKeys d P'. rowKey d p < g} < card {g \<in> allKeys d P. rowKey d p0 < g}"
    by (rule psubset_card_mono [rotated])
  then show ?thesis using assms(1,2) by (simp add: groupsAbove_def headOption_def)
qed

lemma heads_of_peeks:
  assumes len: "length ps = length xss"
    and peeks: "\<forall>k<length xss. \<exists>p. ps ! k = Some p \<and> rowKey d p = g"
  shows "\<forall>xs\<in>set (pending ps xss). \<exists>p rest. xs = p # rest \<and> rowKey d p = g"
proof
  fix xs assume "xs \<in> set (pending ps xss)"
  then obtain k where k: "k < length xss" "xs = pending ps xss ! k"
    using len by (auto simp: in_set_conv_nth length_pending)
  from peeks k obtain p where p: "ps ! k = Some p" "rowKey d p = g" by blast
  have "xs = p # xss ! k" using k p len by (simp add: nth_pending pending1_def)
  then show "\<exists>p rest. xs = p # rest \<and> rowKey d p = g" using p by blast
qed

lemma JoinIterator_with_joinOf:
  "JoinIterator_with (joinOf d c f) (ps, map returning xss) = joinOf d (ps, xss) f"
  by (simp add: JoinIterator_with_def joinOf_def)

lemma JoinIterator_pass_returning:
  assumes d: "0 \<le> d" "d \<le> 7" and wf: "wellFormed d c"
  shows
    "(commonKeys d (pendingOf c) = {} \<and>
        (\<forall>f. \<exists>s'. JoinIterator_pass (joinOf d c f) = Inr (Return None s'))) \<or>
     (\<exists>c'. wellFormed d c' \<and> commonKeys d (pendingOf c') = commonKeys d (pendingOf c) \<and>
           (remaining (pendingOf c') < remaining (pendingOf c) \<or>
            remaining (pendingOf c') = remaining (pendingOf c) \<and>
            groupsAbove d (pendingOf c') < groupsAbove d (pendingOf c)) \<and>
           (\<forall>f. JoinIterator_pass (joinOf d c f) = Inr (Continue (joinOf d c' f)))) \<or>
     (\<exists>r c'. wellFormed d c' \<and> True \<and> rowKey d r \<in> commonKeys d (pendingOf c) \<and>
           (\<forall>h\<in>commonKeys d (pendingOf c). rowKey d r \<le> h) \<and>
           commonKeys d (pendingOf c') = {h \<in> commonKeys d (pendingOf c). rowKey d r < h} \<and>
           remaining (pendingOf c') < remaining (pendingOf c) \<and>
           (\<forall>f. JoinIterator_pass (joinOf d c f) =
                (case keepGroup f r of
                   None \<Rightarrow> Inl Panic
                 | Some True \<Rightarrow> Inr (Return (Some r) (joinOf d c' f))
                 | Some False \<Rightarrow> Inr (Continue (joinOf d c' f)))))"
proof -
  obtain ps xss where c: "c = (ps, xss)" by (cases c)
  let ?P = "pending ps xss"
  have len: "length ps = length xss" and n: "0 < length xss"
    and sorted: "\<forall>xs\<in>set ?P. ascending d xs"
    using wf by (simp_all add: wellFormed_def pendingOf_def c)
  from alignChildren_returning [OF d len n sorted, of True]
  obtain out where out: "alignChildren True d (ps, map returning xss) = Inr out"
    "alignPost d ?P out" by blast
  have slots: "JoinIterator_slots (joinOf d c f) = (ps, map returning xss)" for f
    by (simp add: JoinIterator_slots_def joinOf_def c)
  have lev: "definitionLevel (joinOf d c f) = d" for f by (simp add: joinOf_def)
  show ?thesis
  proof (cases out)
    case (Return r s')
    then have "commonKeys d ?P = {}" "r = None" using out(2) by (simp_all add: alignPost_def)
    moreover have "JoinIterator_pass (joinOf d c f) = Inr (Return None (JoinIterator_with (joinOf d c f) s'))" for f
      using out(1) Return \<open>r = None\<close> by (simp add: JoinIterator_pass_def slots lev)
    ultimately show ?thesis by (intro disjI1) (simp add: pendingOf_def c)
  next
    case (Continue s')
    with out(2) obtain ps' xss' p p0 rest where a:
      "s' = (ps', map returning xss')" "length ps' = length ?P" "length xss' = length ?P"
      "\<forall>xs\<in>set (pending ps' xss'). ascending d xs"
      "commonKeys d (pending ps' xss') = commonKeys d ?P"
      "remaining (pending ps' xss') \<le> remaining ?P"
      "allKeys d (pending ps' xss') \<subseteq> allKeys d ?P"
      "?P ! 0 = p0 # rest" "ps' ! 0 = Some p"
      "rowKey d p0 < rowKey d p" "rowKey d p \<in> allKeys d ?P"
      unfolding alignPost_def by (simp only: flow.case) (elim exE conjE, rule that)
    have lenP: "length ?P = length xss" using len by (simp add: length_pending)
    have hd': "pending ps' xss' ! 0 = p # xss' ! 0"
      using a(2,3,9) lenP n by (simp add: nth_pending pending1_def)
    have less: "groupsAbove d (pending ps' xss') < groupsAbove d ?P"
      using a(8) hd' a(10,11,7) by (rule groupsAbove_less)
    have wf': "wellFormed d (ps', xss')"
      using a(2,3,4) lenP n by (auto simp: wellFormed_def pendingOf_def)
    have pass: "JoinIterator_pass (joinOf d c f) = Inr (Continue (joinOf d (ps', xss') f))" for f
      using out(1) Continue a(1)
      by (simp add: JoinIterator_pass_def slots lev JoinIterator_with_joinOf)
    have m: "remaining (pending ps' xss') < remaining ?P \<or>
             remaining (pending ps' xss') = remaining ?P \<and>
             groupsAbove d (pending ps' xss') < groupsAbove d ?P"
      using a(6) less by linarith
    show ?thesis
      apply (rule disjI2, rule disjI1, rule exI [of _ "(ps', xss')"])
      using wf' a(5) m pass by (simp add: pendingOf_def c)
  next
    case (Proceed s')
    with out(2) obtain ps' xss' p0 where a:
      "s' = (ps', map returning xss')" "length ps' = length ?P" "length xss' = length ?P"
      "\<forall>xs\<in>set (pending ps' xss'). ascending d xs"
      "commonKeys d (pending ps' xss') = commonKeys d ?P"
      "remaining (pending ps' xss') \<le> remaining ?P"
      "allKeys d (pending ps' xss') \<subseteq> allKeys d ?P"
      "ps' ! 0 = Some p0"
      "\<forall>k<length ?P. \<exists>p. ps' ! k = Some p \<and> rowKey d p = rowKey d p0"
      unfolding alignPost_def by (simp only: flow.case) (elim exE conjE, rule that)
    let ?P' = "pending ps' xss'"
    let ?g = "rowKey d p0"
    have lenP: "length ?P = length xss" using len by (simp add: length_pending)
    have len': "length ps' = length xss'" using a(2,3) by simp
    have lx: "length xss' = length xss" using a(3) lenP by simp
    have a9: "\<forall>k<length xss'. \<exists>p. ps' ! k = Some p \<and> rowKey d p = rowKey d p0"
      using a(9) unfolding lenP lx .
    have peeks: "\<forall>k<length xss'. ps' ! k \<noteq> None"
    proof (intro allI impI)
      fix k assume "k < length xss'"
      with a9 obtain p where "ps' ! k = Some p" by blast
      then show "ps' ! k \<noteq> None" by simp
    qed
    from collectAll_returning [OF d(2) len' peeks, of "RowNumber p0" "resetResult (RowNumber p0)"]
    obtain ps'' xss'' where b:
      "collectEach d (RowNumber p0) [0 ..< length xss'] (resetResult (RowNumber p0)) (ps', map returning xss') =
         Inr (foldl Append (resetResult (RowNumber p0)) (groupAt d (keyOf d (RowNumber p0)) ?P'),
              (ps'', map returning xss''))"
      "length ps'' = length xss'" "length xss'' = length xss'"
      "pending ps'' xss'' = withoutGroup d (keyOf d (RowNumber p0)) ?P'"
      by (elim exE conjE) (rule that)
    define r where "r = foldl Append (resetResult (RowNumber p0)) (groupAt d (keyOf d (RowNumber p0)) ?P')"
    have kr: "rowKey d r = ?g" by (simp add: r_def rowKey_def resetResult_def)
    have w: "pending ps'' xss'' = withoutGroup d ?g ?P'" using b(4) by (simp add: rowKey_def)
    have ne': "?P' \<noteq> []" using len' lx n by (metis length_pending less_numeral_extra(3) list.size(3) min.idem)
    have heads: "\<forall>xs\<in>set ?P'. \<exists>p rest. xs = p # rest \<and> rowKey d p = ?g"
      using len' a9 by (rule heads_of_peeks)
    have k1: "?g \<in> commonKeys d ?P" using group_in_commonKeys [OF heads] a(5) by simp
    have hd0: "?P' ! 0 = p0 # xss' ! 0"
      using a(8) len' lx n by (simp add: nth_pending pending1_def)
    have "?P' ! 0 \<in> set ?P'" using ne' by (cases ?P') simp_all
    then have "ascending d (?P' ! 0)" using a(4) by blast
    from commonKeys_lower_bound [OF ne' hd0 this]
    have k2: "\<forall>h\<in>commonKeys d ?P. ?g \<le> h" using a(5) by simp
    have k3: "commonKeys d (pending ps'' xss'') = {h \<in> commonKeys d ?P. ?g < h}"
      using withoutGroup_commonKeys [OF a(4) heads ne'] a(5) w by simp
    have k4: "remaining (pending ps'' xss'') < remaining ?P"
      using withoutGroup_remaining [OF heads ne'] a(6) w by simp
    have wf'': "wellFormed d (ps'', xss'')"
      using b(2,3) lx n withoutGroup_ascending [OF a(4), of ?g] w
      by (auto simp: wellFormed_def pendingOf_def)
    have col: "JoinIterator_collect (joinOf d (ps', xss') f) (RowNumber p0) =
        Inr (r, joinOf d (ps'', xss'') f)" for f
      using b(1) by (simp add: JoinIterator_collect_def JoinIterator_slots_def joinOf_def
          JoinIterator_with_def r_def)
    have pass: "JoinIterator_pass (joinOf d c f) =
                (case keepGroup f r of
                   None \<Rightarrow> Inl Panic
                 | Some True \<Rightarrow> Inr (Return (Some r) (joinOf d (ps'', xss'') f))
                 | Some False \<Rightarrow> Inr (Continue (joinOf d (ps'', xss'') f)))" for f
    proof -
      have "pred (joinOf d (ps'', xss'') f) = f" by (simp add: joinOf_def)
      then show ?thesis
        using out(1) Proceed a(1,8) col [of f]
        by (simp add: JoinIterator_pass_def slots lev JoinIterator_with_joinOf)
    qed
    show ?thesis
      apply (rule disjI2, rule disjI2, rule exI [of _ r], rule exI [of _ "(ps'', xss'')"])
      using wf'' k1 k2 k3 k4 pass by (simp add: pendingOf_def c kr)
  qed
qed

subsection \<open>JoinIterator: the groups it emits\<close>

lemma pending_replicate_None [simp]: "pending (replicate (length xss) None) xss = xss"
  by (rule nth_equalityI) (simp_all add: length_pending nth_pending pending1_def)

lemma JoinIterator_readAll:
  assumes d: "0 \<le> d" "d \<le> 7" and wf: "wellFormed d c"
  shows "\<exists>gs. sorted_wrt (<) (map (rowKey d) gs) \<and>
              set (map (rowKey d) gs) = commonKeys d (pendingOf c) \<and>
              (\<forall>f. (\<forall>r. keepGroup f r \<noteq> None) \<longrightarrow>
                 readAll JoinIterator_Next (joinOf d c f) =
                   Some (Inr (filter (\<lambda>r. keepGroup f r = Some True) gs)))"
proof -
  have "\<exists>gs. sorted_wrt (<) (map (rowKey d) gs) \<and>
              set (map (rowKey d) gs) = commonKeys d (pendingOf c) \<and> (\<forall>r\<in>set gs. True) \<and>
              (\<forall>f. (\<forall>r. keepGroup f r \<noteq> None) \<longrightarrow>
                 readAll JoinIterator_Next (joinOf d c f) =
                   Some (Inr (filter (\<lambda>r. keepGroup f r = Some True) gs)))"
    using wf
  proof (rule readAll_of_passes [where pass = JoinIterator_pass and I = "wellFormed d"
        and ?m1.0 = "\<lambda>c. remaining (pendingOf c)" and ?m2.0 = "\<lambda>c. groupsAbove d (pendingOf c)"
        and Q = "\<lambda>r. True", rotated 2])
    show "JoinIterator_Next s =
       (case JoinIterator_pass s of
          Inl e \<Rightarrow> Some (Inl e)
        | Inr (Return r s') \<Rightarrow> Some (Inr (r, s'))
        | Inr (Continue s') \<Rightarrow> JoinIterator_Next s'
        | Inr (Proceed s') \<Rightarrow> JoinIterator_Next s')" for s
      by (rule JoinIterator_Next.simps)
  next
    fix c assume "wellFormed d c"
    then show "(commonKeys d (pendingOf c) = {} \<and>
        (\<forall>f. \<exists>s'. JoinIterator_pass (joinOf d c f) = Inr (Return None s'))) \<or>
     (\<exists>c'. wellFormed d c' \<and> commonKeys d (pendingOf c') = commonKeys d (pendingOf c) \<and>
           (remaining (pendingOf c') < remaining (pendingOf c) \<or>
            remaining (pendingOf c') = remaining (pendingOf c) \<and>
            groupsAbove d (pendingOf c') < groupsAbove d (pendingOf c)) \<and>
           (\<forall>f. JoinIterator_pass (joinOf d c f) = Inr (Continue (joinOf d c' f)))) \<or>
     (\<exists>r c'. wellFormed d c' \<and> True \<and> rowKey d r \<in> commonKeys d (pendingOf c) \<and>
           (\<forall>h\<in>commonKeys d (pendingOf c). rowKey d r \<le> h) \<and>
           commonKeys d (pendingOf c') = {h \<in> commonKeys d (pendingOf c). rowKey d r < h} \<and>
           remaining (pendingOf c') < remaining (pendingOf c) \<and>
           (\<forall>f. JoinIterator_pass (joinOf d c f) =
                (case keepGroup f r of
                   None \<Rightarrow> Inl Panic
                 | Some True \<Rightarrow> Inr (Return (Some r) (joinOf d c' f))
                 | Some False \<Rightarrow> Inr (Continue (joinOf d c' f)))))"
      by (rule JoinIterator_pass_returning [OF d])
  qed
  then show ?thesis by simp
qed

lemma NewJoinIterator_joinOf:
  "NewJoinIterator d (map returning xss) f = joinOf d (replicate (length xss) None, xss) f"
  by (simp add: NewJoinIterator_def joinOf_def)

lemma wellFormed_start:
  "xss \<noteq> [] \<Longrightarrow> \<forall>xs\<in>set xss. ascending d xs \<Longrightarrow> wellFormed d (replicate (length xss) None, xss)"
  by (simp add: wellFormed_def pendingOf_def)

lemma sorted_wrt_keys_Compare:
  assumes "d \<le> 7" and "sorted_wrt (<) (map (rowKey d) gs)"
  shows "sorted_wrt (\<lambda>a b. CompareRowNumbers d (RowNumber a) (RowNumber b) = Some (-1)) gs"
proof -
  have "sorted_wrt (\<lambda>a b. rowKey d a < rowKey d b) gs"
    using assms(2) by (simp add: sorted_wrt_map)
  then show ?thesis
    by (rule sorted_wrt_mono_rel [rotated]) (simp add: CompareRowNumbers_keyOf [OF assms(1)] rowKey_def)
qed

lemma group_emitted_iff:
  assumes "d \<le> 7"
  shows "(\<exists>r\<in>set gs. EqualRowNumber d (RowNumber r) t = Some True) \<longleftrightarrow>
         keyOf d t \<in> set (map (rowKey d) gs)"
  by (force simp: EqualRowNumber_keyOf [OF assms] rowKey_def image_iff)

lemma group_common_iff:
  assumes "d \<le> 7"
  shows "(\<forall>xs\<in>set xss. \<exists>x\<in>set xs. EqualRowNumber d (RowNumber x) t = Some True) \<longleftrightarrow>
         keyOf d t \<in> commonKeys d xss"
  by (force simp: EqualRowNumber_keyOf [OF assms] rowKey_def commonKeys_def image_iff)

text \<open>
  The join over children that keep the contract of the interface \<open>Iterator\<close>: they
  return their results without error and in ascending order at level \<open>d\<close>, and their
  \<open>SeekTo\<close> returns the first result left that is not below the target. Read to the end,
  a \<open>JoinIterator\<close> at level \<open>d\<close> over such children returns a result for a row-number
  group \<open>t\<close> at level \<open>d\<close> if and only if every child has a result equal to \<open>t\<close> at
  level \<open>d\<close>; it returns the groups in strictly ascending order, so each once; and with
  a group predicate that does not panic it returns, of these results, exactly those the
  predicate keeps.
\<close>

theorem JoinIterator_emits_common_groups:
  assumes "0 \<le> d" and "d \<le> 7" and "xss \<noteq> []" and "\<forall>xs\<in>set xss. ascending d xs"
  shows "\<exists>gs. readAll JoinIterator_Next (NewJoinIterator d (map returning xss) None) = Some (Inr gs) \<and>
          (\<forall>t. (\<exists>r\<in>set gs. EqualRowNumber d (RowNumber r) t = Some True) \<longleftrightarrow>
               (\<forall>xs\<in>set xss. \<exists>x\<in>set xs. EqualRowNumber d (RowNumber x) t = Some True)) \<and>
          sorted_wrt (\<lambda>a b. CompareRowNumbers d (RowNumber a) (RowNumber b) = Some (-1)) gs \<and>
          (\<forall>p. (\<forall>r. p r \<noteq> None) \<longrightarrow>
               readAll JoinIterator_Next (NewJoinIterator d (map returning xss) (Some p)) =
                 Some (Inr (filter (\<lambda>r. p r = Some True) gs)))"
proof -
  have wf: "wellFormed d (replicate (length xss) None, xss)"
    using assms(3,4) by (rule wellFormed_start)
  from JoinIterator_readAll [OF assms(1,2) wf] obtain gs where gs:
    "sorted_wrt (<) (map (rowKey d) gs)"
    "set (map (rowKey d) gs) = commonKeys d xss"
    "\<forall>f. (\<forall>r. keepGroup f r \<noteq> None) \<longrightarrow>
         readAll JoinIterator_Next (NewJoinIterator d (map returning xss) f) =
           Some (Inr (filter (\<lambda>r. keepGroup f r = Some True) gs))"
    unfolding NewJoinIterator_joinOf by (elim exE conjE) (simp add: pendingOf_def)
  have a: "readAll JoinIterator_Next (NewJoinIterator d (map returning xss) None) = Some (Inr gs)"
    using gs(3) [rule_format, of None] by (simp add: keepGroup_def)
  have b: "(\<exists>r\<in>set gs. EqualRowNumber d (RowNumber r) t = Some True) \<longleftrightarrow>
           (\<forall>xs\<in>set xss. \<exists>x\<in>set xs. EqualRowNumber d (RowNumber x) t = Some True)" for t
    using group_emitted_iff [OF assms(2), of gs t] group_common_iff [OF assms(2), of xss t] gs(2)
    by simp
  have c: "sorted_wrt (\<lambda>a b. CompareRowNumbers d (RowNumber a) (RowNumber b) = Some (-1)) gs"
    using assms(2) gs(1) by (rule sorted_wrt_keys_Compare)
  have e: "readAll JoinIterator_Next (NewJoinIterator d (map returning xss) (Some p)) =
                 Some (Inr (filter (\<lambda>r. p r = Some True) gs))" if "\<forall>r. p r \<noteq> None" for p
    using gs(3) [rule_format, of "Some p"] that by (simp add: keepGroup_def)
  show ?thesis using a b c e by (intro exI [of _ gs]) blast
qed

lemma ascending_childA: "ascending 0 childA"
  by (simp add: ascending_def childA_def rowKey_def keyOf_def resultAt_def)

lemma ascending_childB: "ascending 0 childB"
  by (simp add: ascending_def childB_def rowKey_def keyOf_def resultAt_def)

theorem JoinIterator_emits_common_groups_witness:
  "(0::int) \<le> 0 \<and> (0::int) \<le> 7 \<and> [childA, childB] \<noteq> [] \<and>
   ascending 0 childA \<and> ascending 0 childB \<and>
   (\<exists>gs. readAll JoinIterator_Next (NewJoinIterator 0 (map returning [childA, childB]) None) = Some (Inr gs) \<and>
          (\<forall>t. (\<exists>r\<in>set gs. EqualRowNumber 0 (RowNumber r) t = Some True) \<longleftrightarrow>
               (\<forall>xs\<in>set [childA, childB]. \<exists>x\<in>set xs. EqualRowNumber 0 (RowNumber x) t = Some True)) \<and>
          sorted_wrt (\<lambda>a b. CompareRowNumbers 0 (RowNumber a) (RowNumber b) = Some (-1)) gs \<and>
          (\<forall>p. (\<forall>r. p r \<noteq> None) \<longrightarrow>
               readAll JoinIterator_Next (NewJoinIterator 0 (map returning [childA, childB]) (Some p)) =
                 Some (Inr (filter (\<lambda>r. p r = Some True) gs))))"
proof -
  have h: "\<forall>xs\<in>set [childA, childB]. ascending 0 xs"
    by (simp add: ascending_childA ascending_childB)
  have n: "[childA, childB] \<noteq> []" by simp
  have z: "(0::int) \<le> 0" "(0::int) \<le> 7" by simp_all
  note th = JoinIterator_emits_common_groups [OF z n h]
  show ?thesis by (intro conjI) (rule z n ascending_childA ascending_childB th)+
qed

text \<open>
  On the two example children the join at level 0 returns one result, for row 2; the
  child that was ahead has been moved to the front, so its entry comes first.
\<close>

lemma JoinIterator_example:
  "readAll JoinIterator_Next (NewJoinIterator 0 (map returning [childA, childB]) None) =
     Some (Inr [\<lparr>RowNumber = RN 2 0 (-1) (-1) (-1) (-1) (-1) (-1),
                 Entries = [kvEntry ''b'' ''v'', kvEntry ''a'' ''v'', kvEntry ''a'' ''v''],
                 OtherEntries = []\<rparr>])"
  by code_simp

subsection \<open>JoinIterator over SyncIterator children\<close>

text \<open>
  C2. The claim fails on the code for a join at level 0 over the two iterators \<open>leafX\<close>
  and \<open>leafY\<close>, by the defect of \<open>SyncIterator.SeekTo\<close>. Read with \<open>Next\<close>, \<open>leafX\<close> has
  the rows 1 and 2 and \<open>leafY\<close> the rows 0 and 2, and over children that return these
  results and keep the contract of \<open>SeekTo\<close> the join returns the result for row 2 that
  the claim promises. The first call of \<open>JoinIterator.Next\<close> peeks the children with
  \<open>Next\<close>: row 1 of \<open>leafX\<close> and row 0 of \<open>leafY\<close>. Row 0 is below row 1, so \<open>seek\<close> calls
  \<open>SeekTo\<close> of \<open>leafY\<close> with the target row 1 at level 0, and \<open>SeekTo\<close> returns nothing,
  although the next \<open>Next\<close> of \<open>leafY\<close> returns row 2. \<open>JoinIterator.Next\<close> takes a child that
  returns nothing as exhausted and returns nothing itself: so does the model on a second
  child that answers the two calls as \<open>leafY\<close> does, with row 0 and then nothing.
\<close>

theorem JoinIterator_over_SyncIterators_misses_group:
  "readAll SyncIterator_Next leafX = Some (Inr [rowOf 1 ''x'', rowOf 2 ''x'']) \<and>
   readAll SyncIterator_Next leafY = Some (Inr [rowOf 0 ''y'', rowOf 2 ''y'']) \<and>
   readAll JoinIterator_Next
     (NewJoinIterator 0
        (map returning [[rowOf 1 ''x'', rowOf 2 ''x''], [rowOf 0 ''y'', rowOf 2 ''y'']]) None) =
     Some (Inr [\<lparr>RowNumber = RN 2 (-1) (-1) (-1) (-1) (-1) (-1) (-1),
                 Entries = [(''y'', byteValue ''b''), (''x'', byteValue ''b'')],
                 OtherEntries = []\<rparr>]) \<and>
   returned (SyncIterator_Next leafX) = Some (Inr (Some (rowOf 1 ''x''))) \<and>
   returned (SyncIterator_Next leafY) = Some (Inr (Some (rowOf 0 ''y''))) \<and>
   TruncateRowNumber 0 (RowNumber (rowOf 1 ''x'')) = Some (RowNumber (rowOf 1 ''x'')) \<and>
   CompareRowNumbers 0 (RowNumber (rowOf 0 ''y'')) (RowNumber (rowOf 1 ''x'')) = Some (-1) \<and>
   returned (afterwards (SyncIterator_Next leafY)
               (SyncIterator_SeekTo (RowNumber (rowOf 1 ''x'')) 0)) = Some (Inr None) \<and>
   returned (afterwards (afterwards (SyncIterator_Next leafY)
                           (SyncIterator_SeekTo (RowNumber (rowOf 1 ''x'')) 0))
               SyncIterator_Next) = Some (Inr (Some (rowOf 2 ''y''))) \<and>
   map_option (map_sum id fst)
     (JoinIterator_Next
        (NewJoinIterator 0 (map returning [[rowOf 1 ''x'', rowOf 2 ''x''], [rowOf 0 ''y'']]) None)) =
     Some (Inr None)"
  by code_simp

subsection \<open>The optional children of a left join\<close>

lemma seekEach_total:
  assumes d: "d \<le> 7"
  shows "length ps = length yss \<Longrightarrow> \<forall>i\<in>set is. i < length yss \<Longrightarrow>
     \<exists>ps' yss'. seekEach t d is (ps, map returning yss) = Inr (ps', map returning yss') \<and>
                length ps' = length yss \<and> length yss' = length yss"
proof (induction "is" arbitrary: ps yss)
  case Nil
  then show ?case by (intro exI [of _ ps] exI [of _ yss]) simp
next
  case (Cons i "is")
  have i: "i < length yss" using Cons.prems(2) by simp
  let ?ys = "dropWhile (\<lambda>r. rowKey d r < keyOf d t) (pending ps yss ! i)"
  let ?ps1 = "ps[i := headOption ?ys]"
  let ?yss1 = "yss[i := tl ?ys]"
  have s: "seekAt i t d (ps, map returning yss) = Inr (?ps1, map returning ?yss1)"
    using d i Cons.prems(1) by (rule seekAt_returning)
  have l: "length ?ps1 = length ?yss1" using Cons.prems(1) by simp
  have r: "\<forall>k\<in>set is. k < length ?yss1" using Cons.prems(2) by simp
  from Cons.IH [OF l r] obtain ps' yss' where
    "seekEach t d is (?ps1, map returning ?yss1) = Inr (ps', map returning yss')"
    "length ps' = length ?yss1" "length yss' = length ?yss1"
    by (elim exE conjE) (rule that)
  then show ?case using s by (intro exI [of _ ps'] exI [of _ yss']) simp
qed

lemma collectEach_total:
  assumes d: "d \<le> 7"
  shows "length ps = length yss \<Longrightarrow> \<forall>i\<in>set is. i < length yss \<Longrightarrow>
     \<exists>res' ps' yss'. collectEach d rn is res (ps, map returning yss) = Inr (res', (ps', map returning yss')) \<and>
                length ps' = length yss \<and> length yss' = length yss \<and> RowNumber res' = RowNumber res"
proof (induction "is" arbitrary: ps yss res)
  case Nil
  then show ?case by (intro exI [of _ res] exI [of _ ps] exI [of _ yss]) simp
next
  case (Cons i "is")
  have i: "i < length yss" using Cons.prems(2) by simp
  from collectWhile_total [OF d, of rn res "ps ! i" "yss ! i"]
  obtain res1 p1 ys1 where c:
    "collectWhile d rn res (ps ! i) (returning (yss ! i)) = Inr (res1, p1, returning ys1)"
    "RowNumber res1 = RowNumber res"
    by (elim exE conjE) (rule that)
  let ?ps1 = "ps[i := p1]"
  let ?yss1 = "yss[i := ys1]"
  have l: "length ?ps1 = length ?yss1" using Cons.prems(1) by simp
  have r: "\<forall>k\<in>set is. k < length ?yss1" using Cons.prems(2) by simp
  from Cons.IH [OF l r, of res1] obtain res' ps' yss' where e:
    "collectEach d rn is res1 (?ps1, map returning ?yss1) = Inr (res', (ps', map returning yss'))"
    "length ps' = length ?yss1" "length yss' = length ?yss1" "RowNumber res' = RowNumber res1"
    by (elim exE conjE) (rule that)
  have "collectEach d rn (i # is) res (ps, map returning yss) =
        collectEach d rn is res1 (?ps1, map returning ?yss1)"
    using c(1) i by (simp add: map_update)
  then show ?case using e c(2)
    by (intro exI [of _ res'] exI [of _ ps'] exI [of _ yss']) simp
qed

subsection \<open>A pass of LeftJoinIterator.Next\<close>

lemma LeftJoinIterator_with_leftJoinOf:
  "LeftJoinIterator_with (leftJoinOf d c f) (ps, map returning xss) = leftJoinOf d ((ps, xss), snd c) f"
  by (simp add: LeftJoinIterator_with_def leftJoinOf_def)

lemma LeftJoinIterator_withOptional_leftJoinOf:
  "LeftJoinIterator_withOptional (leftJoinOf d c f) (ps, map returning yss) =
     leftJoinOf d (fst c, (ps, yss)) f"
  by (simp add: LeftJoinIterator_withOptional_def leftJoinOf_def)

lemma LeftJoinIterator_collect_returning:
  assumes d: "d \<le> 7"
    and len: "length ps = length xss"
    and peeks: "\<forall>k<length xss. ps ! k \<noteq> None"
    and leno: "length pso = length yss"
  shows "\<exists>r ps' xss' pso' yss'.
          (\<forall>f. LeftJoinIterator_collect (leftJoinOf d ((ps, xss), (pso, yss)) f) rn =
                 Inr (r, leftJoinOf d ((ps', xss'), (pso', yss')) f)) \<and>
          RowNumber r = rn \<and>
          length ps' = length xss \<and> length xss' = length xss \<and>
          pending ps' xss' = withoutGroup d (keyOf d rn) (pending ps xss) \<and>
          length pso' = length yss'"
proof -
  have io: "\<forall>i\<in>set [0 ..< length yss]. i < length yss" by simp
  from seekEach_total [OF d leno io, of rn]
  obtain pso1 yss1 where a:
    "seekEach rn d [0 ..< length yss] (pso, map returning yss) = Inr (pso1, map returning yss1)"
    "length pso1 = length yss" "length yss1 = length yss"
    by (elim exE conjE) (rule that)
  from collectAll_returning [OF d len peeks, of rn "resetResult rn"]
  obtain ps' xss' where b:
    "collectEach d rn [0 ..< length xss] (resetResult rn) (ps, map returning xss) =
       Inr (foldl Append (resetResult rn) (groupAt d (keyOf d rn) (pending ps xss)),
            (ps', map returning xss'))"
    "length ps' = length xss" "length xss' = length xss"
    "pending ps' xss' = withoutGroup d (keyOf d rn) (pending ps xss)"
    by (elim exE conjE) (rule that)
  define r1 where "r1 = foldl Append (resetResult rn) (groupAt d (keyOf d rn) (pending ps xss))"
  have l1: "length pso1 = length yss1" using a(2,3) by simp
  have io1: "\<forall>i\<in>set [0 ..< length yss1]. i < length yss1" by simp
  from collectEach_total [OF d l1 io1, of rn r1]
  obtain r pso' yss' where e:
    "collectEach d rn [0 ..< length yss1] r1 (pso1, map returning yss1) = Inr (r, (pso', map returning yss'))"
    "length pso' = length yss1" "length yss' = length yss1" "RowNumber r = RowNumber r1"
    by (elim exE conjE) (rule that)
  have rn: "RowNumber r = rn" using e(4) by (simp add: r1_def resetResult_def)
  have col: "LeftJoinIterator_collect (leftJoinOf d ((ps, xss), (pso, yss)) f) rn =
                 Inr (r, leftJoinOf d ((ps', xss'), (pso', yss')) f)" for f
    using a(1) b(1) e(1)
    by (simp add: LeftJoinIterator_collect_def seekAllOptional_def LeftJoinIterator_optional_def
        LeftJoinIterator_required_def LeftJoinIterator_withOptional_def LeftJoinIterator_with_def
        leftJoinOf_def r1_def)
  show ?thesis
    using col rn b(2,3,4) e(2,3)
    by (intro exI [of _ r] exI [of _ ps'] exI [of _ xss'] exI [of _ pso'] exI [of _ yss']) simp
qed

lemma LeftJoinIterator_pass_returning:
  assumes d: "0 \<le> d" "d \<le> 7" and wf: "wellFormedLeft d c"
  shows
    "(commonKeys d (pendingOf (fst c)) = {} \<and>
        (\<forall>f. \<exists>s'. LeftJoinIterator_pass (leftJoinOf d c f) = Inr (Return None s'))) \<or>
     (\<exists>c'. wellFormedLeft d c' \<and> commonKeys d (pendingOf (fst c')) = commonKeys d (pendingOf (fst c)) \<and>
           (remaining (pendingOf (fst c')) < remaining (pendingOf (fst c)) \<or>
            remaining (pendingOf (fst c')) = remaining (pendingOf (fst c)) \<and>
            groupsAbove d (pendingOf (fst c')) < groupsAbove d (pendingOf (fst c))) \<and>
           (\<forall>f. LeftJoinIterator_pass (leftJoinOf d c f) = Inr (Continue (leftJoinOf d c' f)))) \<or>
     (\<exists>r c'. wellFormedLeft d c' \<and> True \<and> rowKey d r \<in> commonKeys d (pendingOf (fst c)) \<and>
           (\<forall>h\<in>commonKeys d (pendingOf (fst c)). rowKey d r \<le> h) \<and>
           commonKeys d (pendingOf (fst c')) = {h \<in> commonKeys d (pendingOf (fst c)). rowKey d r < h} \<and>
           remaining (pendingOf (fst c')) < remaining (pendingOf (fst c)) \<and>
           (\<forall>f. LeftJoinIterator_pass (leftJoinOf d c f) =
                (case keepGroup f r of
                   None \<Rightarrow> Inl Panic
                 | Some True \<Rightarrow> Inr (Return (Some r) (leftJoinOf d c' f))
                 | Some False \<Rightarrow> Inr (Continue (leftJoinOf d c' f)))))"
proof -
  obtain ps xss pso yss where c: "c = ((ps, xss), (pso, yss))" by (cases c) auto
  let ?P = "pending ps xss"
  have len: "length ps = length xss" and n: "0 < length xss"
    and sorted: "\<forall>xs\<in>set ?P. ascending d xs" and leno: "length pso = length yss"
    using wf by (simp_all add: wellFormedLeft_def wellFormed_def pendingOf_def c)
  from alignChildren_returning [OF d len n sorted, of False]
  obtain out where out: "alignChildren False d (ps, map returning xss) = Inr out"
    "alignPost d ?P out" by blast
  have slots: "LeftJoinIterator_required (leftJoinOf d c f) = (ps, map returning xss)" for f
    by (simp add: LeftJoinIterator_required_def leftJoinOf_def c)
  have lev: "lj_definitionLevel (leftJoinOf d c f) = d" for f by (simp add: leftJoinOf_def)
  have sndc: "snd c = (pso, yss)" by (simp add: c)
  show ?thesis
  proof (cases out)
    case (Return r s')
    then have "commonKeys d ?P = {}" "r = None" using out(2) by (simp_all add: alignPost_def)
    moreover have "LeftJoinIterator_pass (leftJoinOf d c f) =
        Inr (Return None (LeftJoinIterator_with (leftJoinOf d c f) s'))" for f
      using out(1) Return \<open>r = None\<close> by (simp add: LeftJoinIterator_pass_def slots lev)
    ultimately show ?thesis by (intro disjI1) (simp add: pendingOf_def c)
  next
    case (Continue s')
    with out(2) obtain ps' xss' p p0 rest where a:
      "s' = (ps', map returning xss')" "length ps' = length ?P" "length xss' = length ?P"
      "\<forall>xs\<in>set (pending ps' xss'). ascending d xs"
      "commonKeys d (pending ps' xss') = commonKeys d ?P"
      "remaining (pending ps' xss') \<le> remaining ?P"
      "allKeys d (pending ps' xss') \<subseteq> allKeys d ?P"
      "?P ! 0 = p0 # rest" "ps' ! 0 = Some p"
      "rowKey d p0 < rowKey d p" "rowKey d p \<in> allKeys d ?P"
      unfolding alignPost_def by (simp only: flow.case) (elim exE conjE, rule that)
    have lenP: "length ?P = length xss" using len by (simp add: length_pending)
    have hd': "pending ps' xss' ! 0 = p # xss' ! 0"
      using a(2,3,9) lenP n by (simp add: nth_pending pending1_def)
    have less: "groupsAbove d (pending ps' xss') < groupsAbove d ?P"
      using a(8) hd' a(10,11,7) by (rule groupsAbove_less)
    have wf': "wellFormedLeft d ((ps', xss'), (pso, yss))"
      using a(2,3,4) lenP n leno by (auto simp: wellFormedLeft_def wellFormed_def pendingOf_def)
    have pass: "LeftJoinIterator_pass (leftJoinOf d c f) =
        Inr (Continue (leftJoinOf d ((ps', xss'), (pso, yss)) f))" for f
      using out(1) Continue a(1)
      by (simp add: LeftJoinIterator_pass_def slots lev LeftJoinIterator_with_leftJoinOf sndc)
    have m: "remaining (pending ps' xss') < remaining ?P \<or>
             remaining (pending ps' xss') = remaining ?P \<and>
             groupsAbove d (pending ps' xss') < groupsAbove d ?P"
      using a(6) less by linarith
    show ?thesis
      apply (rule disjI2, rule disjI1, rule exI [of _ "((ps', xss'), (pso, yss))"])
      using wf' a(5) m pass by (simp add: pendingOf_def c)
  next
    case (Proceed s')
    with out(2) obtain ps' xss' p0 where a:
      "s' = (ps', map returning xss')" "length ps' = length ?P" "length xss' = length ?P"
      "\<forall>xs\<in>set (pending ps' xss'). ascending d xs"
      "commonKeys d (pending ps' xss') = commonKeys d ?P"
      "remaining (pending ps' xss') \<le> remaining ?P"
      "allKeys d (pending ps' xss') \<subseteq> allKeys d ?P"
      "ps' ! 0 = Some p0"
      "\<forall>k<length ?P. \<exists>p. ps' ! k = Some p \<and> rowKey d p = rowKey d p0"
      unfolding alignPost_def by (simp only: flow.case) (elim exE conjE, rule that)
    let ?P' = "pending ps' xss'"
    let ?g = "rowKey d p0"
    have lenP: "length ?P = length xss" using len by (simp add: length_pending)
    have len': "length ps' = length xss'" using a(2,3) by simp
    have lx: "length xss' = length xss" using a(3) lenP by simp
    have a9: "\<forall>k<length xss'. \<exists>p. ps' ! k = Some p \<and> rowKey d p = rowKey d p0"
      using a(9) unfolding lenP lx .
    have peeks: "\<forall>k<length xss'. ps' ! k \<noteq> None"
    proof (intro allI impI)
      fix k assume "k < length xss'"
      with a9 obtain p where "ps' ! k = Some p" by blast
      then show "ps' ! k \<noteq> None" by simp
    qed
    from LeftJoinIterator_collect_returning [OF d(2) len' peeks leno, of "RowNumber p0"]
    obtain r ps'' xss'' pso' yss' where b:
      "\<forall>f. LeftJoinIterator_collect (leftJoinOf d ((ps', xss'), (pso, yss)) f) (RowNumber p0) =
                 Inr (r, leftJoinOf d ((ps'', xss''), (pso', yss')) f)"
      "RowNumber r = RowNumber p0"
      "length ps'' = length xss'" "length xss'' = length xss'"
      "pending ps'' xss'' = withoutGroup d (keyOf d (RowNumber p0)) ?P'"
      "length pso' = length yss'"
      by (elim exE conjE) (rule that)
    have kr: "rowKey d r = ?g" using b(2) by (simp add: rowKey_def)
    have w: "pending ps'' xss'' = withoutGroup d ?g ?P'" using b(5) by (simp add: rowKey_def)
    have ne': "?P' \<noteq> []" using len' lx n by (metis length_pending less_numeral_extra(3) list.size(3) min.idem)
    have heads: "\<forall>xs\<in>set ?P'. \<exists>p rest. xs = p # rest \<and> rowKey d p = ?g"
      using len' a9 by (rule heads_of_peeks)
    have k1: "?g \<in> commonKeys d ?P" using group_in_commonKeys [OF heads] a(5) by simp
    have hd0: "?P' ! 0 = p0 # xss' ! 0"
      using a(8) len' lx n by (simp add: nth_pending pending1_def)
    have "?P' ! 0 \<in> set ?P'" using ne' by (cases ?P') simp_all
    then have "ascending d (?P' ! 0)" using a(4) by blast
    from commonKeys_lower_bound [OF ne' hd0 this]
    have k2: "\<forall>h\<in>commonKeys d ?P. ?g \<le> h" using a(5) by simp
    have k3: "commonKeys d (pending ps'' xss'') = {h \<in> commonKeys d ?P. ?g < h}"
      using withoutGroup_commonKeys [OF a(4) heads ne'] a(5) w by simp
    have k4: "remaining (pending ps'' xss'') < remaining ?P"
      using withoutGroup_remaining [OF heads ne'] a(6) w by simp
    have wf'': "wellFormedLeft d ((ps'', xss''), (pso', yss'))"
      using b(3,4,6) lx n withoutGroup_ascending [OF a(4), of ?g] w
      by (auto simp: wellFormedLeft_def wellFormed_def pendingOf_def)
    have pass: "LeftJoinIterator_pass (leftJoinOf d c f) =
                (case keepGroup f r of
                   None \<Rightarrow> Inl Panic
                 | Some True \<Rightarrow> Inr (Return (Some r) (leftJoinOf d ((ps'', xss''), (pso', yss')) f))
                 | Some False \<Rightarrow> Inr (Continue (leftJoinOf d ((ps'', xss''), (pso', yss')) f)))" for f
    proof -
      have "lj_pred (leftJoinOf d ((ps'', xss''), (pso', yss')) f) = f" by (simp add: leftJoinOf_def)
      then show ?thesis
        using out(1) Proceed a(1,8) b(1) [rule_format, of f]
        by (simp add: LeftJoinIterator_pass_def slots lev LeftJoinIterator_with_leftJoinOf sndc)
    qed
    show ?thesis
      apply (rule disjI2, rule disjI2, rule exI [of _ r], rule exI [of _ "((ps'', xss''), (pso', yss'))"])
      using wf'' k1 k2 k3 k4 pass by (simp add: pendingOf_def c kr)
  qed
qed

lemma LeftJoinIterator_readAll:
  assumes d: "0 \<le> d" "d \<le> 7" and wf: "wellFormedLeft d c"
  shows "\<exists>gs. sorted_wrt (<) (map (rowKey d) gs) \<and>
              set (map (rowKey d) gs) = commonKeys d (pendingOf (fst c)) \<and>
              (\<forall>f. (\<forall>r. keepGroup f r \<noteq> None) \<longrightarrow>
                 readAll LeftJoinIterator_Next (leftJoinOf d c f) =
                   Some (Inr (filter (\<lambda>r. keepGroup f r = Some True) gs)))"
proof -
  have "\<exists>gs. sorted_wrt (<) (map (rowKey d) gs) \<and>
              set (map (rowKey d) gs) = commonKeys d (pendingOf (fst c)) \<and> (\<forall>r\<in>set gs. True) \<and>
              (\<forall>f. (\<forall>r. keepGroup f r \<noteq> None) \<longrightarrow>
                 readAll LeftJoinIterator_Next (leftJoinOf d c f) =
                   Some (Inr (filter (\<lambda>r. keepGroup f r = Some True) gs)))"
    using wf
  proof (rule readAll_of_passes [where pass = LeftJoinIterator_pass and I = "wellFormedLeft d"
        and ?m1.0 = "\<lambda>c. remaining (pendingOf (fst c))"
        and ?m2.0 = "\<lambda>c. groupsAbove d (pendingOf (fst c))"
        and K = "\<lambda>c. commonKeys d (pendingOf (fst c))"
        and Q = "\<lambda>r. True", rotated 2])
    show "LeftJoinIterator_Next s =
       (case LeftJoinIterator_pass s of
          Inl e \<Rightarrow> Some (Inl e)
        | Inr (Return r s') \<Rightarrow> Some (Inr (r, s'))
        | Inr (Continue s') \<Rightarrow> LeftJoinIterator_Next s'
        | Inr (Proceed s') \<Rightarrow> LeftJoinIterator_Next s')" for s
      by (rule LeftJoinIterator_Next.simps)
  next
    fix c assume "wellFormedLeft d c"
    then show "(commonKeys d (pendingOf (fst c)) = {} \<and>
        (\<forall>f. \<exists>s'. LeftJoinIterator_pass (leftJoinOf d c f) = Inr (Return None s'))) \<or>
     (\<exists>c'. wellFormedLeft d c' \<and> commonKeys d (pendingOf (fst c')) = commonKeys d (pendingOf (fst c)) \<and>
           (remaining (pendingOf (fst c')) < remaining (pendingOf (fst c)) \<or>
            remaining (pendingOf (fst c')) = remaining (pendingOf (fst c)) \<and>
            groupsAbove d (pendingOf (fst c')) < groupsAbove d (pendingOf (fst c))) \<and>
           (\<forall>f. LeftJoinIterator_pass (leftJoinOf d c f) = Inr (Continue (leftJoinOf d c' f)))) \<or>
     (\<exists>r c'. wellFormedLeft d c' \<and> True \<and> rowKey d r \<in> commonKeys d (pendingOf (fst c)) \<and>
           (\<forall>h\<in>commonKeys d (pendingOf (fst c)). rowKey d r \<le> h) \<and>
           commonKeys d (pendingOf (fst c')) = {h \<in> commonKeys d (pendingOf (fst c)). rowKey d r < h} \<and>
           remaining (pendingOf (fst c')) < remaining (pendingOf (fst c)) \<and>
           (\<forall>f. LeftJoinIterator_pass (leftJoinOf d c f) =
                (case keepGroup f r of
                   None \<Rightarrow> Inl Panic
                 | Some True \<Rightarrow> Inr (Return (Some r) (leftJoinOf d c' f))
                 | Some False \<Rightarrow> Inr (Continue (leftJoinOf d c' f)))))"
      by (rule LeftJoinIterator_pass_returning [OF d])
  qed
  then show ?thesis by simp
qed

subsection \<open>LeftJoinIterator: as many results as the join of the required children\<close>

lemma NewLeftJoinIterator_leftJoinOf:
  "req \<noteq> [] \<Longrightarrow>
   NewLeftJoinIterator d (map returning req) (map returning opt) f =
     Inr (leftJoinOf d ((replicate (length req) None, req), (replicate (length opt) None, opt)) f)"
  by (simp add: NewLeftJoinIterator_def leftJoinOf_def)

lemma same_keys_same_groups:
  assumes "d \<le> 7" and "map (rowKey d) as = map (rowKey d) bs"
  shows "list_all2 (\<lambda>a b. EqualRowNumber d (RowNumber a) (RowNumber b) = Some True) as bs"
proof -
  have "list_all2 (\<lambda>a b. rowKey d a = rowKey d b) as bs"
    using assms(2) by (simp add: list_all2_conv_all_nth list_eq_iff_nth_eq)
  then show ?thesis
    by (rule list_all2_mono) (simp add: EqualRowNumber_keyOf [OF assms(1)] rowKey_def)
qed

text \<open>
  C4. Read to the end with no group predicate, a \<open>LeftJoinIterator\<close> at level \<open>d\<close> over
  required children without errors and in ascending order at level \<open>d\<close>, and any optional
  children without errors, returns as many results as the \<open>JoinIterator\<close> at level \<open>d\<close>
  over the required children alone, and result by result for the same group at level
  \<open>d\<close>: the optional children do not change the number of results.
\<close>

theorem LeftJoinIterator_count_as_join:
  assumes "0 \<le> d" and "d \<le> 7" and "req \<noteq> []" and "\<forall>xs\<in>set req. ascending d xs"
  shows "\<exists>j rsL rsJ.
           NewLeftJoinIterator d (map returning req) (map returning opt) None = Inr j \<and>
           readAll LeftJoinIterator_Next j = Some (Inr rsL) \<and>
           readAll JoinIterator_Next (NewJoinIterator d (map returning req) None) = Some (Inr rsJ) \<and>
           length rsL = length rsJ \<and>
           list_all2 (\<lambda>a b. EqualRowNumber d (RowNumber a) (RowNumber b) = Some True) rsL rsJ"
proof -
  let ?c = "((replicate (length req) None, req), (replicate (length opt) None, opt))"
  have wf: "wellFormed d (replicate (length req) None, req)"
    using assms(3,4) by (rule wellFormed_start)
  have wfl: "wellFormedLeft d ?c" using wf by (simp add: wellFormedLeft_def)
  from LeftJoinIterator_readAll [OF assms(1,2) wfl] obtain rsL where l:
    "sorted_wrt (<) (map (rowKey d) rsL)"
    "set (map (rowKey d) rsL) = commonKeys d req"
    "\<forall>f. (\<forall>r. keepGroup f r \<noteq> None) \<longrightarrow>
         readAll LeftJoinIterator_Next (leftJoinOf d ?c f) =
           Some (Inr (filter (\<lambda>r. keepGroup f r = Some True) rsL))"
    by (elim exE conjE) (simp add: pendingOf_def)
  from JoinIterator_readAll [OF assms(1,2) wf] obtain rsJ where j:
    "sorted_wrt (<) (map (rowKey d) rsJ)"
    "set (map (rowKey d) rsJ) = commonKeys d req"
    "\<forall>f. (\<forall>r. keepGroup f r \<noteq> None) \<longrightarrow>
         readAll JoinIterator_Next (NewJoinIterator d (map returning req) f) =
           Some (Inr (filter (\<lambda>r. keepGroup f r = Some True) rsJ))"
    unfolding NewJoinIterator_joinOf by (elim exE conjE) (simp add: pendingOf_def)
  have a: "NewLeftJoinIterator d (map returning req) (map returning opt) None = Inr (leftJoinOf d ?c None)"
    using assms(3) by (rule NewLeftJoinIterator_leftJoinOf)
  have b: "readAll LeftJoinIterator_Next (leftJoinOf d ?c None) = Some (Inr rsL)"
    using l(3) [rule_format, of None] by (simp add: keepGroup_def)
  have c: "readAll JoinIterator_Next (NewJoinIterator d (map returning req) None) = Some (Inr rsJ)"
    using j(3) [rule_format, of None] by (simp add: keepGroup_def)
  have keys: "map (rowKey d) rsL = map (rowKey d) rsJ"
    using j(1) l(1) by (rule strict_sorted_equal) (simp only: l(2) j(2))
  then have e: "length rsL = length rsJ" by (rule map_eq_imp_length_eq)
  have g: "list_all2 (\<lambda>a b. EqualRowNumber d (RowNumber a) (RowNumber b) = Some True) rsL rsJ"
    using assms(2) keys by (rule same_keys_same_groups)
  show ?thesis
    using a b c e g by (intro exI [of _ "leftJoinOf d ?c None"] exI [of _ rsL] exI [of _ rsJ]) simp
qed

theorem LeftJoinIterator_count_as_join_witness:
  "(0::int) \<le> 0 \<and> (0::int) \<le> 7 \<and> [childA, childB] \<noteq> [] \<and>
   ascending 0 childA \<and> ascending 0 childB \<and>
   (\<exists>j rsL rsJ.
           NewLeftJoinIterator 0 (map returning [childA, childB]) (map returning [[resultAt 2 0 ''c'']]) None = Inr j \<and>
           readAll LeftJoinIterator_Next j = Some (Inr rsL) \<and>
           readAll JoinIterator_Next (NewJoinIterator 0 (map returning [childA, childB]) None) = Some (Inr rsJ) \<and>
           length rsL = length rsJ \<and>
           list_all2 (\<lambda>a b. EqualRowNumber 0 (RowNumber a) (RowNumber b) = Some True) rsL rsJ)"
proof -
  have h: "\<forall>xs\<in>set [childA, childB]. ascending 0 xs"
    by (simp add: ascending_childA ascending_childB)
  have n: "[childA, childB] \<noteq> []" by simp
  have z: "(0::int) \<le> 0" "(0::int) \<le> 7" by simp_all
  note th = LeftJoinIterator_count_as_join [OF z n h, of "[[resultAt 2 0 ''c'']]"]
  show ?thesis by (intro conjI) (rule z n ascending_childA ascending_childB th)+
qed

text \<open>
  On the example children with one optional child that has a result at row 2, the left
  join returns one result, as the join does, with the entry of the optional child last.
\<close>

lemma LeftJoinIterator_example:
  "map_sum id (\<lambda>j. readAll LeftJoinIterator_Next j)
     (NewLeftJoinIterator 0 (map returning [childA, childB]) (map returning [[resultAt 2 0 ''c'']]) None) =
   Inr (Some (Inr [\<lparr>RowNumber = RN 2 0 (-1) (-1) (-1) (-1) (-1) (-1),
                 Entries = [kvEntry ''b'' ''v'', kvEntry ''a'' ''v'', kvEntry ''a'' ''v'', kvEntry ''c'' ''v''],
                 OtherEntries = []\<rparr>]))"
  by code_simp

subsection \<open>The loop of UnionIterator.Next\<close>

lemma findLowest_returning:
  assumes d: "d \<le> 7"
  shows "length ps = length xss \<Longrightarrow> \<forall>i\<in>set is. i < length xss \<Longrightarrow>
     \<exists>ps' xss'.
        findLowest d is low (ps, map returning xss) =
          Inr (foldl (lowerOf d (pending ps xss)) low is, (ps', map returning xss')) \<and>
        length ps' = length xss \<and> length xss' = length xss \<and>
        pending ps' xss' = pending ps xss \<and>
        (\<forall>k\<in>set is. ps' ! k = headOption (pending ps xss ! k)) \<and>
        (\<forall>k. k \<notin> set is \<longrightarrow> ps' ! k = ps ! k)"
proof (induction "is" arbitrary: ps xss low)
  case Nil
  then show ?case by (intro exI [of _ ps] exI [of _ xss]) simp
next
  case (Cons i "is")
  let ?P = "pending ps xss"
  have i: "i < length xss" using Cons.prems(2) by simp
  define ps1 where "ps1 = ps[i := headOption (?P ! i)]"
  define xss1 where "xss1 = xss[i := (case ps ! i of None \<Rightarrow> tl (xss ! i) | Some r \<Rightarrow> xss ! i)]"
  have pk: "peekAt i (ps, map returning xss) = Inr (headOption (?P ! i), (ps1, map returning xss1))"
    unfolding ps1_def xss1_def using i Cons.prems(1) by (rule peekAt_returning)
  have P1: "pending ps1 xss1 = ?P"
    unfolding ps1_def xss1_def using i Cons.prems(1) by (rule pending_after_peekAt)
  have l1: "length ps1 = length xss1" using Cons.prems(1) by (simp add: ps1_def xss1_def)
  have lx: "length xss1 = length xss" by (simp add: xss1_def)
  have r1: "\<forall>k\<in>set is. k < length xss1" using Cons.prems(2) by (simp add: xss1_def)
  have step: "findLowest d (i # is) low (ps, map returning xss) =
              findLowest d is (lowerOf d ?P low i) (ps1, map returning xss1)"
  proof (cases "headOption (?P ! i)")
    case None
    then show ?thesis using pk by (simp add: lowerOf_def)
  next
    case (Some p)
    then show ?thesis using pk
      by (simp add: lowerOf_def CompareRowNumbers_keyOf [OF d] rowKey_def)
  qed
  from Cons.IH [OF l1 r1, of "lowerOf d ?P low i"] obtain ps' xss' where e:
    "findLowest d is (lowerOf d ?P low i) (ps1, map returning xss1) =
       Inr (foldl (lowerOf d ?P) (lowerOf d ?P low i) is, (ps', map returning xss'))"
    "length ps' = length xss" "length xss' = length xss"
    "pending ps' xss' = ?P"
    "\<forall>k\<in>set is. ps' ! k = headOption (?P ! k)"
    "\<forall>k. k \<notin> set is \<longrightarrow> ps' ! k = ps1 ! k"
    unfolding P1 lx by (elim exE conjE) (rule that)
  have at_i: "ps' ! i = headOption (?P ! i)"
  proof (cases "i \<in> set is")
    case True
    then show ?thesis using e(5) by blast
  next
    case False
    then have "ps' ! i = ps1 ! i" using e(6) by blast
    then show ?thesis using i Cons.prems(1) by (simp add: ps1_def)
  qed
  have other: "ps' ! k = ps ! k" if "k \<notin> set (i # is)" for k
  proof -
    have "ps' ! k = ps1 ! k" using e(6) that by simp
    moreover have "k \<noteq> i" using that by simp
    ultimately show ?thesis by (simp add: ps1_def)
  qed
  show ?case
  proof (intro exI [of _ ps'] exI [of _ xss'] conjI)
    show "findLowest d (i # is) low (ps, map returning xss) =
          Inr (foldl (lowerOf d ?P) low (i # is), ps', map returning xss')"
      using step e(1) by simp
    show "\<forall>k\<in>set (i # is). ps' ! k = headOption (?P ! k)"
      using at_i e(5) by simp
    show "\<forall>k. k \<notin> set (i # is) \<longrightarrow> ps' ! k = ps ! k"
      using other by blast
  qed (rule e)+
qed

lemma lowerOf_foldl:
  fixes d :: int and P :: "IteratorResult list list" and low :: "RowNumber \<times> nat list"
  defines "res \<equiv> \<lambda>is. foldl (lowerOf d P) low is"
  shows "keyOf d (fst (res is)) \<le> keyOf d (fst low) \<and>
         (\<forall>k\<in>set is. \<forall>p. headOption (P ! k) = Some p \<longrightarrow> keyOf d (fst (res is)) \<le> rowKey d p) \<and>
         (fst (res is) = fst low \<or> (\<exists>k\<in>set is. \<exists>p. headOption (P ! k) = Some p \<and> fst (res is) = RowNumber p)) \<and>
         snd (res is) =
           (if keyOf d (fst (res is)) = keyOf d (fst low) then snd low else []) @
           filter (headAt d P (keyOf d (fst (res is)))) is"
proof (induction "is" rule: rev_induct)
  case Nil
  then show ?case by (simp add: res_def)
next
  case (snoc k "is")
  obtain rn1 idx1 where r1: "res is = (rn1, idx1)" by (cases "res is")
  have step: "res (is @ [k]) = lowerOf d P (rn1, idx1) k" using r1 by (simp add: res_def)
  from snoc r1 have a: "keyOf d rn1 \<le> keyOf d (fst low)"
    and b: "\<forall>j\<in>set is. \<forall>p. headOption (P ! j) = Some p \<longrightarrow> keyOf d rn1 \<le> rowKey d p"
    and c: "rn1 = fst low \<or> (\<exists>j\<in>set is. \<exists>p. headOption (P ! j) = Some p \<and> rn1 = RowNumber p)"
    and e: "idx1 = (if keyOf d rn1 = keyOf d (fst low) then snd low else []) @
                   filter (headAt d P (keyOf d rn1)) is"
    by simp_all
  show ?case
  proof (cases "headOption (P ! k)")
    case None
    then have "res (is @ [k]) = (rn1, idx1)" using step by (simp add: lowerOf_def)
    moreover have "\<not> headAt d P (keyOf d rn1) k" using None by (simp add: headAt_def)
    ultimately show ?thesis using a b c e None by auto
  next
    case (Some p)
    consider (lt) "rowKey d p < keyOf d rn1" | (eq) "rowKey d p = keyOf d rn1"
      | (gt) "keyOf d rn1 < rowKey d p" by (metis less_linear)
    then show ?thesis
    proof cases
      case lt
      then have r: "res (is @ [k]) = (RowNumber p, [k])" using step Some by (simp add: lowerOf_def)
      have kp: "keyOf d (RowNumber p) = rowKey d p" by (simp add: rowKey_def)
      have n1: "rowKey d p \<noteq> keyOf d (fst low)" using lt a by auto
      have n2: "filter (headAt d P (rowKey d p)) is = []"
      proof -
        have "\<not> headAt d P (rowKey d p) j" if "j \<in> set is" for j
        proof (cases "headOption (P ! j)")
          case None
          then show ?thesis by (simp add: headAt_def)
        next
          case (Some q)
          then have "keyOf d rn1 \<le> rowKey d q" using b that by blast
          then show ?thesis using lt Some by (auto simp: headAt_def)
        qed
        then show ?thesis by (simp add: filter_empty_conv)
      qed
      have n3: "headAt d P (rowKey d p) k" using Some by (simp add: headAt_def)
      have b': "\<forall>j\<in>set (is @ [k]). \<forall>q. headOption (P ! j) = Some q \<longrightarrow> rowKey d p \<le> rowKey d q"
        using b lt Some by fastforce
      have a': "rowKey d p \<le> keyOf d (fst low)" using lt a by simp
      show ?thesis
        unfolding r fst_conv snd_conv kp using a' b' n1 n2 n3 Some by auto
    next
      case eq
      then have r: "res (is @ [k]) = (rn1, idx1 @ [k])" using step Some by (simp add: lowerOf_def)
      have n3: "headAt d P (keyOf d rn1) k" using Some eq by (simp add: headAt_def)
      have b': "\<forall>j\<in>set (is @ [k]). \<forall>q. headOption (P ! j) = Some q \<longrightarrow> keyOf d rn1 \<le> rowKey d q"
        using b eq Some by auto
      have c': "rn1 = fst low \<or> (\<exists>j\<in>set (is @ [k]). \<exists>p. headOption (P ! j) = Some p \<and> rn1 = RowNumber p)"
        using c by auto
      show ?thesis
        unfolding r fst_conv snd_conv using a b' c' e n3 by simp
    next
      case gt
      then have "\<not> rowKey d p < keyOf d rn1" "rowKey d p \<noteq> keyOf d rn1" by auto
      then have r: "res (is @ [k]) = (rn1, idx1)" using step Some by (simp add: lowerOf_def)
      have n3: "\<not> headAt d P (keyOf d rn1) k" using Some gt by (simp add: headAt_def)
      have b': "\<forall>j\<in>set (is @ [k]). \<forall>q. headOption (P ! j) = Some q \<longrightarrow> keyOf d rn1 \<le> rowKey d q"
        using b gt Some by auto
      have c': "rn1 = fst low \<or> (\<exists>j\<in>set (is @ [k]). \<exists>p. headOption (P ! j) = Some p \<and> rn1 = RowNumber p)"
        using c by auto
      show ?thesis
        unfolding r fst_conv snd_conv using a b' c' e n3 by simp
    qed
  qed
qed

lemma headOption_Some_iff: "headOption xs = Some p \<longleftrightarrow> (\<exists>rest. xs = p # rest)"
  by (cases xs) (simp_all add: headOption_def)

lemma headOption_None_iff: "headOption xs = None \<longleftrightarrow> xs = []"
  by (cases xs) (simp_all add: headOption_def)

lemma lowest_search:
  fixes d :: int and P :: "IteratorResult list list"
  defines "res \<equiv> foldl (lowerOf d P) (MaxRowNumber, []) [0 ..< length P]"
  assumes sorted: "\<forall>xs\<in>set P. ascending d xs"
    and bound: "\<forall>xs\<in>set P. \<forall>x\<in>set xs. rowKey d x \<le> keyOf d MaxRowNumber"
  shows "snd res = filter (headAt d P (keyOf d (fst res))) [0 ..< length P]"
    and "\<forall>xs\<in>set P. \<forall>x\<in>set xs. keyOf d (fst res) \<le> rowKey d x"
    and "allKeys d P = {} \<Longrightarrow> snd res = []"
    and "allKeys d P \<noteq> {} \<Longrightarrow> snd res \<noteq> [] \<and> keyOf d (fst res) \<in> allKeys d P"
proof -
  let ?g = "keyOf d (fst res)"
  from lowerOf_foldl [of d P "(MaxRowNumber, [])" "[0 ..< length P]"]
  have b: "\<forall>k\<in>set [0 ..< length P]. \<forall>p. headOption (P ! k) = Some p \<longrightarrow> ?g \<le> rowKey d p"
    and c: "fst res = MaxRowNumber \<or>
            (\<exists>k\<in>set [0 ..< length P]. \<exists>p. headOption (P ! k) = Some p \<and> fst res = RowNumber p)"
    and e: "snd res = filter (headAt d P ?g) [0 ..< length P]"
    unfolding res_def by simp_all
  show "snd res = filter (headAt d P ?g) [0 ..< length P]" by (rule e)
  show low: "\<forall>xs\<in>set P. \<forall>x\<in>set xs. ?g \<le> rowKey d x"
  proof (intro ballI)
    fix xs x assume xs: "xs \<in> set P" and x: "x \<in> set xs"
    then obtain k where k: "k < length P" "xs = P ! k" by (auto simp: in_set_conv_nth)
    from x obtain p rest where p: "xs = p # rest" by (cases xs) auto
    then have "headOption (P ! k) = Some p" using k by (simp add: headOption_def)
    then have "?g \<le> rowKey d p" using b k by simp
    moreover have "rowKey d p \<le> rowKey d x"
      using sorted xs p x ascending_head_least by blast
    ultimately show "?g \<le> rowKey d x" by simp
  qed
  show "allKeys d P = {} \<Longrightarrow> snd res = []"
  proof -
    assume empty: "allKeys d P = {}"
    have "\<not> headAt d P ?g k" if "k < length P" for k
    proof -
      have "P ! k \<in> set P" using that by simp
      then have "P ! k = []" using empty by (auto simp: allKeys_def)
      then show ?thesis by (simp add: headAt_def headOption_def)
    qed
    then show ?thesis using e by (simp add: filter_empty_conv)
  qed
  show "allKeys d P \<noteq> {} \<Longrightarrow> snd res \<noteq> [] \<and> ?g \<in> allKeys d P"
  proof -
    assume "allKeys d P \<noteq> {}"
    then obtain h where "h \<in> allKeys d P" by blast
    then have "\<exists>xs\<in>set P. \<exists>x\<in>set xs. rowKey d x = h" unfolding allKeys_def by blast
    then obtain xs x where xs: "xs \<in> set P" "x \<in> set xs" by blast
    then obtain k0 where k0: "k0 < length P" "xs = P ! k0" by (auto simp: in_set_conv_nth)
    from xs(2) have "xs \<noteq> []" by auto
    then obtain p0 rest0 where "xs = p0 # rest0" by (cases xs) simp_all
    then have p0: "P ! k0 = p0 # rest0" using k0(2) by simp
    have "\<exists>k<length P. headAt d P ?g k"
    proof -
      from c show ?thesis
      proof
        assume m: "fst res = MaxRowNumber"
        have "p0 \<in> set (P ! k0)" using p0 by simp
        then have "?g \<le> rowKey d p0" "rowKey d p0 \<le> keyOf d MaxRowNumber"
          using low bound k0 xs(1) by auto
        then have "rowKey d p0 = ?g" using m by simp
        then have "headAt d P ?g k0" using p0 by (simp add: headAt_def headOption_def)
        then show ?thesis using k0 by blast
      next
        assume "\<exists>k\<in>set [0 ..< length P]. \<exists>p. headOption (P ! k) = Some p \<and> fst res = RowNumber p"
        then obtain k p where "k < length P" "headOption (P ! k) = Some p" "fst res = RowNumber p"
          by auto
        then have "headAt d P ?g k" by (simp add: headAt_def rowKey_def)
        then show ?thesis using \<open>k < length P\<close> by blast
      qed
    qed
    then obtain k where k: "k < length P" "headAt d P ?g k" by blast
    then have "k \<in> set (snd res)" using e by simp
    then have ne: "snd res \<noteq> []" by auto
    from k obtain p where "headOption (P ! k) = Some p" "rowKey d p = ?g"
      by (auto simp: headAt_def split: option.splits)
    then have pk: "p \<in> set (P ! k)" "rowKey d p = ?g" by (auto simp: headOption_Some_iff)
    have "P ! k \<in> set P" using k by simp
    then have "rowKey d p \<in> allKeys d P" using pk(1) by (auto simp: allKeys_def)
    then have "?g \<in> allKeys d P" using pk(2) by simp
    then show ?thesis using ne by simp
  qed
qed

lemma takeWhile_group_filter:
  "sorted (map f xs) \<Longrightarrow> \<forall>x\<in>set xs. g \<le> f x \<Longrightarrow>
   takeWhile (\<lambda>x. f x = g) xs = filter (\<lambda>x. f x = (g::int list)) xs"
proof (induction xs)
  case Nil
  then show ?case by simp
next
  case (Cons x xs)
  show ?case
  proof (cases "f x = g")
    case True
    then show ?thesis using Cons by simp
  next
    case False
    then have "g < f x" using Cons.prems(2) by (simp add: less_le)
    moreover have "\<forall>y\<in>set xs. f x \<le> f y" using Cons.prems(1) by simp
    ultimately have "\<forall>y\<in>set xs. f y \<noteq> g" by auto
    then have "filter (\<lambda>x. f x = g) xs = []" by (simp add: filter_empty_conv)
    then show ?thesis using False by simp
  qed
qed

lemma filter_dropWhile_other:
  "\<forall>x. R x \<longrightarrow> \<not> Q x \<Longrightarrow> filter Q (dropWhile R xs) = filter Q xs"
  by (induction xs) simp_all

lemma dropWhile_no_head:
  "\<not> headAt d P g k \<Longrightarrow> dropWhile (\<lambda>r. rowKey d r = g) (P ! k) = P ! k"
  by (cases "P ! k") (simp_all add: headAt_def headOption_def)

lemma takeWhile_no_head:
  "\<not> headAt d P g k \<Longrightarrow> takeWhile (\<lambda>r. rowKey d r = g) (P ! k) = []"
  by (cases "P ! k") (simp_all add: headAt_def headOption_def)

lemma concat_map_filter_Nil:
  "\<forall>k. \<not> Q k \<longrightarrow> f k = [] \<Longrightarrow> concat (map f (filter Q ks)) = concat (map f ks)"
  by (induction ks) simp_all

lemma withoutGroup_allKeys_above:
  assumes sorted: "\<forall>xs\<in>set P. ascending d xs"
    and low: "\<forall>xs\<in>set P. \<forall>x\<in>set xs. g \<le> rowKey d x"
  shows "allKeys d (withoutGroup d g P) = {h \<in> allKeys d P. g < h}"
proof -
  have each: "rowKey d ` set (dropWhile (\<lambda>r. rowKey d r = g) xs) = {h \<in> rowKey d ` set xs. g < h}"
    if xs: "xs \<in> set P" for xs
  proof -
    have "sorted (map (rowKey d) xs)" using sorted xs by (simp add: ascending_def)
    moreover have "\<forall>x\<in>set xs. g \<le> rowKey d x" using low xs by blast
    ultimately show ?thesis by (rule keys_dropWhile_group)
  qed
  have "allKeys d (withoutGroup d g P) = (\<Union>xs\<in>set P. rowKey d ` set (dropWhile (\<lambda>r. rowKey d r = g) xs))"
    by (simp add: allKeys_def withoutGroup_def)
  also have "\<dots> = (\<Union>xs\<in>set P. {h \<in> rowKey d ` set xs. g < h})" using each by simp
  also have "\<dots> = {h \<in> allKeys d P. g < h}" by (auto simp: allKeys_def)
  finally show ?thesis .
qed

lemma withoutGroup_remaining_head:
  assumes "k < length P" and "headAt d P g k"
  shows "remaining (withoutGroup d g P) < remaining P"
proof -
  from assms(2) obtain p rest where p: "P ! k = p # rest" "rowKey d p = g"
    by (auto simp: headAt_def headOption_Some_iff split: option.splits)
  have split: "P = take k P @ P ! k # drop (Suc k) P" using assms(1) by (rule id_take_nth_drop)
  have le: "remaining (withoutGroup d g Q) \<le> remaining Q" for Q
    by (simp add: remaining_def withoutGroup_def sum_list_mono length_dropWhile_le)
  have "length (dropWhile (\<lambda>r. rowKey d r = g) (P ! k)) \<le> length rest"
    using p by (simp add: length_dropWhile_le)
  then have lt: "length (dropWhile (\<lambda>r. rowKey d r = g) (P ! k)) < length (P ! k)" using p by simp
  have "remaining (withoutGroup d g P) =
        remaining (withoutGroup d g (take k P)) + length (dropWhile (\<lambda>r. rowKey d r = g) (P ! k)) +
        remaining (withoutGroup d g (drop (Suc k) P))"
    by (subst split) (simp add: remaining_def withoutGroup_def)
  moreover have "remaining P = remaining (take k P) + length (P ! k) + remaining (drop (Suc k) P)"
    by (subst split) (simp add: remaining_def)
  ultimately show ?thesis using lt le [of "take k P"] le [of "drop (Suc k) P"] by linarith
qed

subsection \<open>A pass of UnionIterator.Next\<close>

lemma withoutGroup_bound:
  "\<forall>xs\<in>set P. \<forall>x\<in>set xs. R x \<Longrightarrow> \<forall>xs\<in>set (withoutGroup d g P). \<forall>x\<in>set xs. R x"
  by (auto simp: withoutGroup_def dest: set_dropWhileD)

lemma groupAt_unionGroup:
  assumes len: "length P = length xss0"
    and sorted: "\<forall>xs\<in>set P. ascending d xs"
    and low: "\<forall>xs\<in>set P. \<forall>x\<in>set xs. g \<le> rowKey d x"
    and whole: "\<forall>k<length xss0. filter (\<lambda>x. rowKey d x = g) (P ! k) = filter (\<lambda>x. rowKey d x = g) (xss0 ! k)"
  shows "groupAt d g P = unionGroup d xss0 g"
proof -
  have "map (takeWhile (\<lambda>r. rowKey d r = g)) P = map (filter (\<lambda>x. rowKey d x = g)) xss0"
  proof (rule nth_equalityI)
    show "length (map (takeWhile (\<lambda>r. rowKey d r = g)) P) = length (map (filter (\<lambda>x. rowKey d x = g)) xss0)"
      using len by simp
  next
    fix k assume "k < length (map (takeWhile (\<lambda>r. rowKey d r = g)) P)"
    then have k: "k < length P" by simp
    then have m: "P ! k \<in> set P" by simp
    have "sorted (map (rowKey d) (P ! k))" using sorted m by (simp add: ascending_def)
    moreover have "\<forall>x\<in>set (P ! k). g \<le> rowKey d x" using low m by blast
    ultimately have "takeWhile (\<lambda>r. rowKey d r = g) (P ! k) = filter (\<lambda>r. rowKey d r = g) (P ! k)"
      by (rule takeWhile_group_filter)
    then show "map (takeWhile (\<lambda>r. rowKey d r = g)) P ! k = map (filter (\<lambda>x. rowKey d x = g)) xss0 ! k"
      using k len whole by simp
  qed
  then show ?thesis by (simp add: groupAt_def unionGroup_def)
qed

lemma UnionIterator_pass_returning:
  assumes d: "d \<le> 7" and wf: "wellFormedUnion d xss0 c"
  shows
    "(allKeys d (pendingOf (snd c)) = {} \<and>
        (\<forall>f. \<exists>s'. UnionIterator_pass (unionOf d c f) = Inr (Return None s'))) \<or>
     (\<exists>r c'. wellFormedUnion d xss0 c' \<and>
           Entries r = concat (map Entries (unionGroup d xss0 (rowKey d r))) \<and>
           rowKey d r \<in> allKeys d (pendingOf (snd c)) \<and>
           (\<forall>h\<in>allKeys d (pendingOf (snd c)). rowKey d r \<le> h) \<and>
           allKeys d (pendingOf (snd c')) = {h \<in> allKeys d (pendingOf (snd c)). rowKey d r < h} \<and>
           remaining (pendingOf (snd c')) < remaining (pendingOf (snd c)) \<and>
           (\<forall>f. UnionIterator_pass (unionOf d c f) =
                (case keepGroup f r of
                   None \<Rightarrow> Inl Panic
                 | Some True \<Rightarrow> Inr (Return (Some r) (unionOf d c' f))
                 | Some False \<Rightarrow> Inr (Continue (unionOf d c' f)))))"
proof -
  obtain low0 ps xss where c: "c = (low0, ps, xss)" by (cases c) auto
  let ?P = "pending ps xss"
  let ?n = "length xss"
  have len: "length ps = length xss" and len0: "length xss = length xss0"
    and sorted: "\<forall>xs\<in>set ?P. ascending d xs"
    and bound: "\<forall>xs\<in>set ?P. \<forall>x\<in>set xs. rowKey d x \<le> keyOf d MaxRowNumber"
    and whole: "\<forall>k<length xss0. \<forall>h\<in>allKeys d ?P.
        filter (\<lambda>x. rowKey d x = h) (?P ! k) = filter (\<lambda>x. rowKey d x = h) (xss0 ! k)"
    using wf by (simp_all add: wellFormedUnion_def pendingOf_def c)
  have lenP: "length ?P = ?n" using len by (simp add: length_pending)
  define res where "res = foldl (lowerOf d ?P) (MaxRowNumber, []) [0 ..< ?n]"
  define rn where "rn = fst res"
  define idxs where "idxs = snd res"
  define g where "g = keyOf d rn"
  have res: "res = (rn, idxs)" by (simp add: rn_def idxs_def)
  have all_lt: "\<forall>i\<in>set [0 ..< ?n]. i < ?n" by simp
  from findLowest_returning [OF d len all_lt, of "(MaxRowNumber, [])"]
  obtain ps1 xss1 where f:
    "findLowest d [0 ..< ?n] (MaxRowNumber, []) (ps, map returning xss) =
       Inr ((rn, idxs), (ps1, map returning xss1))"
    "length ps1 = ?n" "length xss1 = ?n" "pending ps1 xss1 = ?P"
    "\<forall>k\<in>set [0 ..< ?n]. ps1 ! k = headOption (?P ! k)"
    unfolding res_def [symmetric] res by (elim exE conjE) (rule that)
  from lowest_search [OF sorted bound]
  have s1: "idxs = filter (headAt d ?P g) [0 ..< ?n]"
    and s2: "\<forall>xs\<in>set ?P. \<forall>x\<in>set xs. g \<le> rowKey d x"
    and s3: "allKeys d ?P = {} \<Longrightarrow> idxs = []"
    and s4: "allKeys d ?P \<noteq> {} \<Longrightarrow> idxs \<noteq> [] \<and> g \<in> allKeys d ?P"
    unfolding lenP res_def [symmetric] rn_def [symmetric] idxs_def [symmetric] g_def [symmetric]
    by simp_all
  have len1: "length ps1 = length xss1" using f(2,3) by simp
  have dist: "distinct idxs" by (simp add: s1)
  have pre: "\<forall>i\<in>set idxs. i < length xss1 \<and> ps1 ! i \<noteq> None"
  proof
    fix i assume "i \<in> set idxs"
    then have i: "i < ?n" "headAt d ?P g i" by (simp_all add: s1)
    then have "headOption (?P ! i) \<noteq> None" by (auto simp: headAt_def split: option.splits)
    then show "i < length xss1 \<and> ps1 ! i \<noteq> None" using i(1) f(3,5) by simp
  qed
  from collectEach_returning [OF d len1 dist pre, of rn "resetResult rn"]
  obtain ps2 xss2 where e:
    "collectEach d rn idxs (resetResult rn) (ps1, map returning xss1) =
       Inr (foldl Append (resetResult rn)
              (concat (map (\<lambda>i. takeWhile (\<lambda>r. rowKey d r = g) (?P ! i)) idxs)),
            (ps2, map returning xss2))"
    "length ps2 = ?n" "length xss2 = ?n"
    "\<forall>k<?n. pending ps2 xss2 ! k =
        (if k \<in> set idxs then dropWhile (\<lambda>r. rowKey d r = g) (?P ! k) else ?P ! k)"
    unfolding f(3,4) g_def [symmetric] by (elim exE conjE) (rule that)
  have grp: "concat (map (\<lambda>i. takeWhile (\<lambda>r. rowKey d r = g) (?P ! i)) idxs) = groupAt d g ?P"
  proof -
    have "concat (map (\<lambda>i. takeWhile (\<lambda>r. rowKey d r = g) (?P ! i)) idxs) =
          concat (map (\<lambda>i. takeWhile (\<lambda>r. rowKey d r = g) (?P ! i)) [0 ..< ?n])"
      unfolding s1 by (rule concat_map_filter_Nil) (simp add: takeWhile_no_head)
    also have "\<dots> = groupAt d g ?P"
      using map_nth_upt [of "takeWhile (\<lambda>r. rowKey d r = g)" ?P] lenP by (simp add: groupAt_def)
    finally show ?thesis .
  qed
  have w: "pending ps2 xss2 = withoutGroup d g ?P"
  proof (rule nth_equalityI)
    show "length (pending ps2 xss2) = length (withoutGroup d g ?P)"
      using e(2,3) lenP by (simp add: length_pending)
  next
    fix k assume "k < length (pending ps2 xss2)"
    then have k: "k < ?n" using e(2,3) by (simp add: length_pending)
    show "pending ps2 xss2 ! k = withoutGroup d g ?P ! k"
    proof (cases "k \<in> set idxs")
      case True
      then show ?thesis using e(4) k lenP by (simp add: withoutGroup_def)
    next
      case False
      then have "\<not> headAt d ?P g k" using k by (simp add: s1)
      then have "dropWhile (\<lambda>r. rowKey d r = g) (?P ! k) = ?P ! k" by (rule dropWhile_no_head)
      then show ?thesis using e(4) k lenP False by (simp add: withoutGroup_def)
    qed
  qed
  define r where "r = foldl Append (resetResult rn) (groupAt d g ?P)"
  have kr: "rowKey d r = g" by (simp add: r_def rowKey_def resetResult_def g_def)
  have pass: "UnionIterator_pass (unionOf d c f) =
      (if idxs \<noteq> [] then
         (case keepGroup f r of
            None \<Rightarrow> Inl Panic
          | Some True \<Rightarrow> Inr (Return (Some r) (unionOf d (idxs, ps2, xss2) f))
          | Some False \<Rightarrow> Inr (Continue (unionOf d (idxs, ps2, xss2) f)))
       else Inr (Return None (unionOf d (idxs, ps2, xss2) f)))" for f
    using f(1) e(1)
    by (simp add: UnionIterator_pass_def unionOf_def c grp r_def split: option.splits bool.splits)
  show ?thesis
  proof (cases "allKeys d ?P = {}")
    case True
    then have "idxs = []" by (rule s3)
    then have "\<forall>f. \<exists>s'. UnionIterator_pass (unionOf d c f) = Inr (Return None s')"
      using pass by simp
    then show ?thesis using True by (intro disjI1) (simp add: pendingOf_def c)
  next
    case False
    then have ne: "idxs \<noteq> []" and gin: "g \<in> allKeys d ?P" using s4 by simp_all
    let ?c' = "(idxs, ps2, xss2)"
    have above: "allKeys d (withoutGroup d g ?P) = {h \<in> allKeys d ?P. g < h}"
      using sorted s2 by (rule withoutGroup_allKeys_above)
    have whole': "\<forall>k<length xss0. \<forall>h\<in>allKeys d (withoutGroup d g ?P).
        filter (\<lambda>x. rowKey d x = h) (withoutGroup d g ?P ! k) = filter (\<lambda>x. rowKey d x = h) (xss0 ! k)"
    proof (intro allI impI ballI)
      fix k h assume k: "k < length xss0" and h: "h \<in> allKeys d (withoutGroup d g ?P)"
      then have h': "h \<in> allKeys d ?P" "g < h" using above by simp_all
      have "filter (\<lambda>x. rowKey d x = h) (dropWhile (\<lambda>r. rowKey d r = g) (?P ! k)) =
            filter (\<lambda>x. rowKey d x = h) (?P ! k)"
        using h'(2) by (intro filter_dropWhile_other) auto
      then show "filter (\<lambda>x. rowKey d x = h) (withoutGroup d g ?P ! k) = filter (\<lambda>x. rowKey d x = h) (xss0 ! k)"
        using whole k h'(1) len0 lenP by (simp add: withoutGroup_def)
    qed
    have wf': "wellFormedUnion d xss0 ?c'"
      unfolding wellFormedUnion_def pendingOf_def snd_conv fst_conv w
      using e(2,3) len0 withoutGroup_ascending [OF sorted, of g]
        withoutGroup_bound [OF bound, of d g] whole'
      by simp
    have wholeg: "\<forall>k<length xss0. filter (\<lambda>x. rowKey d x = g) (?P ! k) = filter (\<lambda>x. rowKey d x = g) (xss0 ! k)"
      using whole gin by blast
    have lenP0: "length ?P = length xss0" using lenP len0 by simp
    have "groupAt d g ?P = unionGroup d xss0 g"
      using lenP0 sorted s2 wholeg by (rule groupAt_unionGroup)
    then have "Entries r = concat (map Entries (unionGroup d xss0 g))"
      by (simp add: r_def Entries_foldl_Append resetResult_def)
    then have q: "Entries r = concat (map Entries (unionGroup d xss0 (rowKey d r)))"
      by (simp only: kr)
    have k2: "\<forall>h\<in>allKeys d ?P. g \<le> h" using s2 by (auto simp: allKeys_def)
    from ne obtain k where "k \<in> set idxs" by (cases idxs) auto
    then have "k < length ?P" "headAt d ?P g k" using lenP by (simp_all add: s1)
    then have k4: "remaining (withoutGroup d g ?P) < remaining ?P"
      by (rule withoutGroup_remaining_head)
    have pass': "UnionIterator_pass (unionOf d c f) =
         (case keepGroup f r of
            None \<Rightarrow> Inl Panic
          | Some True \<Rightarrow> Inr (Return (Some r) (unionOf d ?c' f))
          | Some False \<Rightarrow> Inr (Continue (unionOf d ?c' f)))" for f
      using pass [of f] ne by simp
    show ?thesis
      apply (rule disjI2, rule exI [of _ r], rule exI [of _ ?c'])
      using wf' q gin k2 above k4 pass' by (simp add: pendingOf_def c kr w)
  qed
qed

subsection \<open>UnionIterator: the groups it emits\<close>

lemma UnionIterator_readAll:
  assumes d: "d \<le> 7" and wf: "wellFormedUnion d xss0 c"
  shows "\<exists>gs. sorted_wrt (<) (map (rowKey d) gs) \<and>
              set (map (rowKey d) gs) = allKeys d (pendingOf (snd c)) \<and>
              (\<forall>r\<in>set gs. Entries r = concat (map Entries (unionGroup d xss0 (rowKey d r)))) \<and>
              (\<forall>f. (\<forall>r. keepGroup f r \<noteq> None) \<longrightarrow>
                 readAll UnionIterator_Next (unionOf d c f) =
                   Some (Inr (filter (\<lambda>r. keepGroup f r = Some True) gs)))"
  using wf
proof (rule readAll_of_passes [where pass = UnionIterator_pass and I = "wellFormedUnion d xss0"
      and ?m1.0 = "\<lambda>c. remaining (pendingOf (snd c))" and ?m2.0 = "\<lambda>c. 0"
      and K = "\<lambda>c. allKeys d (pendingOf (snd c))"
      and Q = "\<lambda>r. Entries r = concat (map Entries (unionGroup d xss0 (rowKey d r)))", rotated 2])
  show "UnionIterator_Next s =
     (case UnionIterator_pass s of
        Inl e \<Rightarrow> Some (Inl e)
      | Inr (Return r s') \<Rightarrow> Some (Inr (r, s'))
      | Inr (Continue s') \<Rightarrow> UnionIterator_Next s'
      | Inr (Proceed s') \<Rightarrow> UnionIterator_Next s')" for s
    by (rule UnionIterator_Next.simps)
next
  fix c assume w: "wellFormedUnion d xss0 c"
  from UnionIterator_pass_returning [OF d w]
  show "(allKeys d (pendingOf (snd c)) = {} \<and>
        (\<forall>f. \<exists>s'. UnionIterator_pass (unionOf d c f) = Inr (Return None s'))) \<or>
     (\<exists>c'. wellFormedUnion d xss0 c' \<and>
           allKeys d (pendingOf (snd c')) = allKeys d (pendingOf (snd c)) \<and>
           (remaining (pendingOf (snd c')) < remaining (pendingOf (snd c)) \<or>
            remaining (pendingOf (snd c')) = remaining (pendingOf (snd c)) \<and> (0::nat) < 0) \<and>
           (\<forall>f. UnionIterator_pass (unionOf d c f) = Inr (Continue (unionOf d c' f)))) \<or>
     (\<exists>r c'. wellFormedUnion d xss0 c' \<and>
           Entries r = concat (map Entries (unionGroup d xss0 (rowKey d r))) \<and>
           rowKey d r \<in> allKeys d (pendingOf (snd c)) \<and>
           (\<forall>h\<in>allKeys d (pendingOf (snd c)). rowKey d r \<le> h) \<and>
           allKeys d (pendingOf (snd c')) = {h \<in> allKeys d (pendingOf (snd c)). rowKey d r < h} \<and>
           remaining (pendingOf (snd c')) < remaining (pendingOf (snd c)) \<and>
           (\<forall>f. UnionIterator_pass (unionOf d c f) =
                (case keepGroup f r of
                   None \<Rightarrow> Inl Panic
                 | Some True \<Rightarrow> Inr (Return (Some r) (unionOf d c' f))
                 | Some False \<Rightarrow> Inr (Continue (unionOf d c' f)))))"
    by (elim disjE) (rule disjI1, assumption, rule disjI2, rule disjI2, assumption)
qed

lemma NewUnionIterator_unionOf:
  "NewUnionIterator d (map returning xss) f =
     unionOf d (replicate (length xss) 0, replicate (length xss) None, xss) f"
  by (simp add: NewUnionIterator_def unionOf_def)

lemma not_above_iff:
  "d \<le> 7 \<Longrightarrow> CompareRowNumbers d a b \<noteq> Some 1 \<longleftrightarrow> keyOf d a \<le> keyOf d b"
  by (auto simp: CompareRowNumbers_keyOf)

lemma group_any_iff:
  assumes "d \<le> 7"
  shows "(\<exists>xs\<in>set xss. \<exists>x\<in>set xs. EqualRowNumber d (RowNumber x) t = Some True) \<longleftrightarrow>
         keyOf d t \<in> allKeys d xss"
  by (force simp: EqualRowNumber_keyOf [OF assms] rowKey_def allKeys_def image_iff)

text \<open>
  C3. Read to the end with no group predicate, a \<open>UnionIterator\<close> at level \<open>d\<close> over
  children without errors, in ascending order at level \<open>d\<close> and with no row number above
  \<open>MaxRowNumber\<close> at level \<open>d\<close>, returns a result for a row-number group \<open>t\<close> at level \<open>d\<close>
  if and only if some child has a result equal to \<open>t\<close> at level \<open>d\<close>; it returns the
  groups in strictly ascending order, so each once; and the entries of a result are the
  entries of all the results of its group, child after child.
\<close>

theorem UnionIterator_emits_all_groups:
  assumes "d \<le> 7" and "\<forall>xs\<in>set xss. ascending d xs"
    and "\<forall>xs\<in>set xss. \<forall>x\<in>set xs. CompareRowNumbers d (RowNumber x) MaxRowNumber \<noteq> Some 1"
  shows "\<exists>gs. readAll UnionIterator_Next (NewUnionIterator d (map returning xss) None) = Some (Inr gs) \<and>
          (\<forall>t. (\<exists>r\<in>set gs. EqualRowNumber d (RowNumber r) t = Some True) \<longleftrightarrow>
               (\<exists>xs\<in>set xss. \<exists>x\<in>set xs. EqualRowNumber d (RowNumber x) t = Some True)) \<and>
          sorted_wrt (\<lambda>a b. CompareRowNumbers d (RowNumber a) (RowNumber b) = Some (-1)) gs \<and>
          (\<forall>r\<in>set gs. Entries r =
             concat (map Entries (concat (map
               (filter (\<lambda>x. EqualRowNumber d (RowNumber x) (RowNumber r) = Some True)) xss))))"
proof -
  let ?c = "(replicate (length xss) (0::nat), replicate (length xss) None, xss)"
  have bound: "\<forall>xs\<in>set xss. \<forall>x\<in>set xs. rowKey d x \<le> keyOf d MaxRowNumber"
    using assms(3) by (simp add: not_above_iff [OF assms(1)] rowKey_def)
  have wf: "wellFormedUnion d xss ?c"
    using assms(2) bound by (simp add: wellFormedUnion_def pendingOf_def)
  from UnionIterator_readAll [OF assms(1) wf] obtain gs where gs:
    "sorted_wrt (<) (map (rowKey d) gs)"
    "set (map (rowKey d) gs) = allKeys d xss"
    "\<forall>r\<in>set gs. Entries r = concat (map Entries (unionGroup d xss (rowKey d r)))"
    "\<forall>f. (\<forall>r. keepGroup f r \<noteq> None) \<longrightarrow>
         readAll UnionIterator_Next (NewUnionIterator d (map returning xss) f) =
           Some (Inr (filter (\<lambda>r. keepGroup f r = Some True) gs))"
    unfolding NewUnionIterator_unionOf by (elim exE conjE) (simp add: pendingOf_def)
  have a: "readAll UnionIterator_Next (NewUnionIterator d (map returning xss) None) = Some (Inr gs)"
    using gs(4) [rule_format, of None] by (simp add: keepGroup_def)
  have b: "(\<exists>r\<in>set gs. EqualRowNumber d (RowNumber r) t = Some True) \<longleftrightarrow>
           (\<exists>xs\<in>set xss. \<exists>x\<in>set xs. EqualRowNumber d (RowNumber x) t = Some True)" for t
    using group_emitted_iff [OF assms(1), of gs t] group_any_iff [OF assms(1), of xss t] gs(2)
    by simp
  have c: "sorted_wrt (\<lambda>a b. CompareRowNumbers d (RowNumber a) (RowNumber b) = Some (-1)) gs"
    using assms(1) gs(1) by (rule sorted_wrt_keys_Compare)
  have e: "Entries r =
             concat (map Entries (concat (map
               (filter (\<lambda>x. EqualRowNumber d (RowNumber x) (RowNumber r) = Some True)) xss)))"
    if "r \<in> set gs" for r
  proof -
    have "(\<lambda>x. EqualRowNumber d (RowNumber x) (RowNumber r) = Some True) = (\<lambda>x. rowKey d x = rowKey d r)"
      by (simp add: EqualRowNumber_keyOf [OF assms(1)] rowKey_def)
    then show ?thesis using gs(3) that by (simp add: unionGroup_def)
  qed
  show ?thesis using a b c e by (intro exI [of _ gs]) blast
qed

theorem UnionIterator_emits_all_groups_witness:
  "(0::int) \<le> 7 \<and> ascending 0 childA \<and> ascending 0 childB \<and>
   list_all (list_all (\<lambda>x. CompareRowNumbers 0 (RowNumber x) MaxRowNumber \<noteq> Some 1)) [childA, childB] \<and>
   (\<exists>gs. readAll UnionIterator_Next (NewUnionIterator 0 (map returning [childA, childB]) None) = Some (Inr gs) \<and>
          (\<forall>t. (\<exists>r\<in>set gs. EqualRowNumber 0 (RowNumber r) t = Some True) \<longleftrightarrow>
               (\<exists>xs\<in>set [childA, childB]. \<exists>x\<in>set xs. EqualRowNumber 0 (RowNumber x) t = Some True)) \<and>
          sorted_wrt (\<lambda>a b. CompareRowNumbers 0 (RowNumber a) (RowNumber b) = Some (-1)) gs \<and>
          (\<forall>r\<in>set gs. Entries r =
             concat (map Entries (concat (map
               (filter (\<lambda>x. EqualRowNumber 0 (RowNumber x) (RowNumber r) = Some True)) [childA, childB])))))"
proof -
  have h: "\<forall>xs\<in>set [childA, childB]. ascending 0 xs"
    by (simp add: ascending_childA ascending_childB)
  have b: "list_all (list_all (\<lambda>x. CompareRowNumbers 0 (RowNumber x) MaxRowNumber \<noteq> Some 1)) [childA, childB]"
    by code_simp
  then have b': "\<forall>xs\<in>set [childA, childB]. \<forall>x\<in>set xs. CompareRowNumbers 0 (RowNumber x) MaxRowNumber \<noteq> Some 1"
    by (simp add: list_all_iff)
  have z: "(0::int) \<le> 7" by simp
  note th = UnionIterator_emits_all_groups [OF z h b']
  show ?thesis by (intro conjI) (rule z ascending_childA ascending_childB b th)+
qed

text \<open>
  The claim as stated fails above the value the loop starts from: at level 1 a child
  with one result at row number \<open>MaxInt32.1\<close>, which is above
  \<open>MaxRowNumber = MaxInt32.0\<close>, is never the lowest, and the union returns nothing.
\<close>

theorem UnionIterator_sentinel_counterexample:
  "IteratorNext (returning [resultAt MaxInt32 1 ''a'']) =
     Inr (Some (resultAt MaxInt32 1 ''a''), []) \<and>
   CompareRowNumbers 1 (RowNumber (resultAt MaxInt32 1 ''a'')) MaxRowNumber = Some 1 \<and>
   readAll UnionIterator_Next
     (NewUnionIterator 1 (map returning [[resultAt MaxInt32 1 ''a'']]) None) = Some (Inr [])"
  by code_simp

text \<open>
  On the two example children the union at level 0 returns the rows 1, 2 and 3, row 2
  with the entries of the two results of the first child and of the result of the second.
\<close>

lemma UnionIterator_example:
  "readAll UnionIterator_Next (NewUnionIterator 0 (map returning [childA, childB]) None) =
     Some (Inr [\<lparr>RowNumber = RN 1 0 (-1) (-1) (-1) (-1) (-1) (-1),
                 Entries = [kvEntry ''a'' ''v''], OtherEntries = []\<rparr>,
                \<lparr>RowNumber = RN 2 0 (-1) (-1) (-1) (-1) (-1) (-1),
                 Entries = [kvEntry ''a'' ''v'', kvEntry ''a'' ''v'', kvEntry ''b'' ''v''],
                 OtherEntries = []\<rparr>,
                \<lparr>RowNumber = RN 3 0 (-1) (-1) (-1) (-1) (-1) (-1),
                 Entries = [kvEntry ''b'' ''v''], OtherEntries = []\<rparr>])"
  by code_simp

end
